theory Spec2Isabelle
  imports Complex_Main "HOL-Library.AList"
begin

section \<open>The floating tree (getChildren, getAncestors)\<close>

text \<open>
  A node of the tree is \<open>{id, parentId}\<close> with the context that \<open>useFloating\<close>
  attaches later. \<open>parentId\<close> is a string or null. Of the context the tree queries
  read \<open>open\<close>, and the dismiss handler reads \<open>refs.floating.current\<close>, an element
  handle or null.
\<close>

record floatingContext =
  ctxOpen :: bool
  ctxFloating :: "nat option"

record floatingNode =
  node_id :: string
  parentId :: "string option"
  nodeContext :: "floatingContext option"

text \<open>\<open>node.context?.open\<close> as a condition.\<close>

definition contextOpen :: "floatingNode \<Rightarrow> bool" where
  "contextOpen node = (case nodeContext node of None \<Rightarrow> False | Some c \<Rightarrow> ctxOpen c)"

text \<open>
  The id a hook queries with is a string, or undefined when the floating element was
  given no \<open>nodeId\<close>. \<open>node.parentId === id\<close> is strict: null is not undefined, so no
  node is a child of the undefined id.
\<close>

definition parentIs :: "floatingNode \<Rightarrow> string option \<Rightarrow> bool" where
  "parentIs node ident = (case ident of None \<Rightarrow> False | Some i \<Rightarrow> parentId node = Some i)"

text \<open>
  The while loop of \<open>getChildren\<close>. It keeps no set of visited nodes, so it need not
  end: the model returns \<open>None\<close> where the loop runs forever.
\<close>

partial_function (option) getChildrenLoop ::
  "floatingNode list \<Rightarrow> floatingNode list \<Rightarrow> floatingNode list \<Rightarrow> floatingNode list option" where
  "getChildrenLoop nodes allChildren currentChildren =
     (if currentChildren \<noteq> [] then
        (let nextChildren =
               filter (\<lambda>node. list_ex (\<lambda>n. parentId node = Some (node_id n) \<and> contextOpen node)
                                      currentChildren)
                      nodes
         in getChildrenLoop nodes (allChildren @ nextChildren) nextChildren)
      else Some allChildren)"

declare getChildrenLoop.simps [code]

definition getChildren :: "floatingNode list \<Rightarrow> string option \<Rightarrow> floatingNode list option" where
  "getChildren nodes ident =
     (let allChildren = filter (\<lambda>node. parentIs node ident \<and> contextOpen node) nodes
      in getChildrenLoop nodes allChildren allChildren)"

text \<open>
  \<open>while (currentParentId)\<close>: null, undefined and the empty string all end the loop.
\<close>

definition truthy :: "string option \<Rightarrow> bool" where
  "truthy v = (case v of None \<Rightarrow> False | Some s \<Rightarrow> s \<noteq> [])"

partial_function (option) getAncestorsLoop ::
  "floatingNode list \<Rightarrow> floatingNode list \<Rightarrow> string option \<Rightarrow> floatingNode list option" where
  "getAncestorsLoop nodes allAncestors currentParentId =
     (if truthy currentParentId then
        (let currentNode = find (\<lambda>node. Some (node_id node) = currentParentId) nodes
         in getAncestorsLoop nodes
              (case currentNode of Some n \<Rightarrow> allAncestors @ [n] | None \<Rightarrow> allAncestors)
              (case currentNode of Some n \<Rightarrow> parentId n | None \<Rightarrow> None))
      else Some allAncestors)"

declare getAncestorsLoop.simps [code]

definition getAncestors :: "floatingNode list \<Rightarrow> string option \<Rightarrow> floatingNode list option" where
  "getAncestors nodes ident =
     getAncestorsLoop nodes []
       (case ident of
          None \<Rightarrow> None
        | Some i \<Rightarrow> (case find (\<lambda>node. node_id node = i) nodes of
                       Some n \<Rightarrow> parentId n
                     | None \<Rightarrow> None))"

text \<open>
  The parent links of a node list as a relation from a node's id to its parent's id.
\<close>

definition parentLinks :: "floatingNode list \<Rightarrow> (string \<times> string) set" where
  "parentLinks nodes = {(node_id n, p) | n p. n \<in> set nodes \<and> parentId n = Some p}"

text \<open>
  The open descendants of an id: the open children, and the open children of open
  descendants.
\<close>

inductive_set openDescendants :: "floatingNode list \<Rightarrow> string option \<Rightarrow> floatingNode set"
  for nodes :: "floatingNode list" and ident :: "string option" where
    child: "n \<in> set nodes \<Longrightarrow> parentIs n ident \<Longrightarrow> contextOpen n \<Longrightarrow> n \<in> openDescendants nodes ident"
  | step: "m \<in> openDescendants nodes ident \<Longrightarrow> n \<in> set nodes \<Longrightarrow> parentId n = Some (node_id m)
           \<Longrightarrow> contextOpen n \<Longrightarrow> n \<in> openDescendants nodes ident"

text \<open>A chain of three nested floating elements, all open, and a fourth closed one.\<close>

definition chainNode :: "string \<Rightarrow> string option \<Rightarrow> bool \<Rightarrow> floatingNode" where
  "chainNode i p opn =
     \<lparr>node_id = i, parentId = p, nodeContext = Some \<lparr>ctxOpen = opn, ctxFloating = None\<rparr>\<rparr>"

definition chainNodes :: "floatingNode list" where
  "chainNodes = [chainNode ''a'' None True, chainNode ''b'' (Some ''a'') True,
                 chainNode ''c'' (Some ''b'') True, chainNode ''d'' (Some ''c'') False]"

text \<open>
  In the words of the tree contract: a chain of parent nodes starting at an id. Each
  element is a node of the list carrying the id asked for, the rest is a chain from that
  node's \<open>parentId\<close>, and the chain ends where the id is null or names no node.
\<close>

fun isParentChain :: "floatingNode list \<Rightarrow> string option \<Rightarrow> floatingNode list \<Rightarrow> bool" where
  "isParentChain nodes cur [] = (\<forall>n \<in> set nodes. Some (node_id n) \<noteq> cur)"
| "isParentChain nodes cur (n # rest) =
     (n \<in> set nodes \<and> cur = Some (node_id n) \<and> isParentChain nodes (parentId n) rest)"

text \<open>The \<open>parentId\<close> of the node with a given id, as \<open>getAncestors\<close> first reads it.\<close>

definition parentOf :: "floatingNode list \<Rightarrow> string \<Rightarrow> string option" where
  "parentOf nodes i =
     (case find (\<lambda>node. node_id node = i) nodes of Some n \<Rightarrow> parentId n | None \<Rightarrow> None)"

text \<open>
  A two-node list in which the root's id is the empty string, a two-node cycle of open
  nodes, and the same cycle with both nodes closed.
\<close>

definition emptyIdNodes :: "floatingNode list" where
  "emptyIdNodes = [chainNode [] None True, chainNode ''x'' (Some []) True]"

definition cycleNodes :: "floatingNode list" where
  "cycleNodes = [chainNode ''a'' (Some ''b'') True, chainNode ''b'' (Some ''a'') True]"

definition closedCycleNodes :: "floatingNode list" where
  "closedCycleNodes = [chainNode ''a'' (Some ''b'') False, chainNode ''b'' (Some ''a'') False]"

text \<open>
  The open nodes strictly below a set of seed nodes: their open children, and the open
  children of those.
\<close>

inductive_set openBelow :: "floatingNode list \<Rightarrow> floatingNode set \<Rightarrow> floatingNode set"
  for nodes :: "floatingNode list" and seeds :: "floatingNode set" where
    below_child: "m \<in> seeds \<Longrightarrow> n \<in> set nodes \<Longrightarrow> parentId n = Some (node_id m) \<Longrightarrow> contextOpen n
                  \<Longrightarrow> n \<in> openBelow nodes seeds"
  | below_step: "m \<in> openBelow nodes seeds \<Longrightarrow> n \<in> set nodes \<Longrightarrow> parentId n = Some (node_id m)
                 \<Longrightarrow> contextOpen n \<Longrightarrow> n \<in> openBelow nodes seeds"

section \<open>List navigation (useListNavigation)\<close>

text \<open>
  An entry of \<open>listRef.current\<close> is an element handle or null. Of an element the
  navigation reads its identity (for \<open>indexOf\<close>), whether it has the attribute
  \<open>disabled\<close>, and the value of its attribute \<open>aria-disabled\<close>.
\<close>

record item =
  elemId :: nat
  hasDisabledAttr :: bool
  ariaDisabled :: "string option"

type_synonym listRef = "item option list"

datatype orientation = Vertical | Horizontal | Both

definition ARROW_UP :: string where "ARROW_UP = ''ArrowUp''"
definition ARROW_DOWN :: string where "ARROW_DOWN = ''ArrowDown''"
definition ARROW_LEFT :: string where "ARROW_LEFT = ''ArrowLeft''"
definition ARROW_RIGHT :: string where "ARROW_RIGHT = ''ArrowRight''"

definition isIndexOutOfBounds :: "listRef \<Rightarrow> int \<Rightarrow> bool" where
  "isIndexOutOfBounds list index = (index < 0 \<or> index \<ge> int (length list))"

text \<open>
  The test of the do-while loop of \<open>findNonDisabledIndex\<close> on one index, read only
  for an index in range: membership in \<open>disabledIndices\<close> when the option is given
  (an empty array is given too), the probe of the element otherwise.
\<close>

definition isDisabledAt :: "listRef \<Rightarrow> int list option \<Rightarrow> int \<Rightarrow> bool" where
  "isDisabledAt list disabledIndices index =
     (case disabledIndices of
        Some ds \<Rightarrow> index \<in> set ds
      | None \<Rightarrow>
          (case list ! nat index of
             None \<Rightarrow> True
           | Some el \<Rightarrow> hasDisabledAttr el \<or> ariaDisabled el = Some ''true''))"

function findNonDisabledIndex :: "listRef \<Rightarrow> int list option \<Rightarrow> int \<Rightarrow> bool \<Rightarrow> int" where
  "findNonDisabledIndex list disabledIndices startingIndex decrement =
     (let index = startingIndex + (if decrement then - 1 else 1)
      in if index \<ge> 0 \<and> index \<le> int (length list) - 1 \<and> isDisabledAt list disabledIndices index
         then findNonDisabledIndex list disabledIndices index decrement
         else index)"
  by pat_completeness auto
termination
  by (relation "measure (\<lambda>(list, ds, s, dec). if dec then nat (s + 1) else nat (int (length list) - s))")
     auto

declare findNonDisabledIndex.simps [simp del]

fun doSwitch :: "orientation \<Rightarrow> bool \<Rightarrow> bool \<Rightarrow> bool" where
  "doSwitch Vertical vertical horizontal = vertical"
| "doSwitch Horizontal vertical horizontal = horizontal"
| "doSwitch Both vertical horizontal = (vertical \<or> horizontal)"

definition isMainOrientationKey :: "string \<Rightarrow> orientation \<Rightarrow> bool" where
  "isMainOrientationKey key ori =
     (let vertical = (key = ARROW_UP \<or> key = ARROW_DOWN);
          horizontal = (key = ARROW_LEFT \<or> key = ARROW_RIGHT)
      in doSwitch ori vertical horizontal)"

definition isMainOrientationToEndKey :: "string \<Rightarrow> orientation \<Rightarrow> bool \<Rightarrow> bool" where
  "isMainOrientationToEndKey key ori rtl =
     (let vertical = (key = ARROW_DOWN);
          horizontal = (if rtl then key = ARROW_LEFT else key = ARROW_RIGHT)
      in doSwitch ori vertical horizontal \<or> key = ''Enter'' \<or> key = '' '' \<or> key = [])"

definition isCrossOrientationOpenKey :: "string \<Rightarrow> orientation \<Rightarrow> bool \<Rightarrow> bool" where
  "isCrossOrientationOpenKey key ori rtl =
     (let vertical = (if rtl then key = ARROW_LEFT else key = ARROW_RIGHT);
          horizontal = (key = ARROW_DOWN)
      in doSwitch ori vertical horizontal)"

definition isCrossOrientationCloseKey :: "string \<Rightarrow> orientation \<Rightarrow> bool \<Rightarrow> bool" where
  "isCrossOrientationCloseKey key ori rtl =
     (let vertical = (if rtl then key = ARROW_RIGHT else key = ARROW_LEFT);
          horizontal = (key = ARROW_UP)
      in doSwitch ori vertical horizontal)"

definition getMinIndex :: "listRef \<Rightarrow> int list option \<Rightarrow> int" where
  "getMinIndex list disabledIndices = findNonDisabledIndex list disabledIndices (- 1) False"

definition getMaxIndex :: "listRef \<Rightarrow> int list option \<Rightarrow> int" where
  "getMaxIndex list disabledIndices =
     findNonDisabledIndex list disabledIndices (int (length list)) True"

text \<open>
  The options of \<open>useListNavigation\<close> and what the hook reads of its surroundings
  when a handler runs: the current item list, whether the floating element is open,
  whether the document's active element is the handler's \<open>currentTarget\<close>, and
  whether the reference is an HTML element.
\<close>

record navProps =
  listRef :: listRef
  isOpen :: bool
  selectedIndex :: "int option"
  allowEscape :: bool
  loop :: bool
  nested :: bool
  rtl :: bool
  virtual :: bool
  focusItemOnHover :: bool
  openOnArrowKeyDown :: bool
  disabledIndices :: "int list option"
  orientation :: orientation
  currentTargetIsActive :: bool
  referenceIsHTMLElement :: bool

text \<open>The refs the handlers write.\<close>

record navState =
  indexRef :: int
  keyRef :: "string option"
  blockPointerLeaveRef :: bool

datatype navEffect =
    Navigate "int option"
  | OpenChange bool
  | StopEvent
  | FocusReference
  | FocusItem int
  | FocusFloating

text \<open>
  The index a main-orientation key moves to when the press is not the reset of a
  focused floating element: lines 2337 to 2363 of the bundle.
\<close>

definition nextMainIndex :: "navProps \<Rightarrow> string \<Rightarrow> int \<Rightarrow> int" where
  "nextMainIndex p key currentIndex =
     (let list = listRef p; ds = disabledIndices p;
          minIndex = getMinIndex list ds; maxIndex = getMaxIndex list ds
      in if isMainOrientationToEndKey key (orientation p) (rtl p) then
           (if loop p then
              (if currentIndex \<ge> maxIndex
               then (if allowEscape p \<and> currentIndex \<noteq> int (length list) then - 1 else minIndex)
               else findNonDisabledIndex list ds currentIndex False)
            else min maxIndex (findNonDisabledIndex list ds currentIndex False))
         else
           (if loop p then
              (if currentIndex \<le> minIndex
               then (if allowEscape p \<and> currentIndex \<noteq> - 1 then int (length list) else maxIndex)
               else findNonDisabledIndex list ds currentIndex True)
            else max minIndex (findNonDisabledIndex list ds currentIndex True)))"

text \<open>The function \<open>onKeyDown\<close> of the hook, the key-down handler of the floating element.\<close>

definition onKeyDown :: "navProps \<Rightarrow> string \<Rightarrow> navState \<Rightarrow> navState \<times> navEffect list" where
  "onKeyDown p key s =
     (let s1 = s\<lparr>blockPointerLeaveRef := True\<rparr>
      in if nested p \<and> isCrossOrientationCloseKey key (orientation p) (rtl p) then
           (s1, [StopEvent, OpenChange False] @ (if referenceIsHTMLElement p then [FocusReference] else []))
         else
           (let currentIndex = indexRef s1;
                minIndex = getMinIndex (listRef p) (disabledIndices p);
                maxIndex = getMaxIndex (listRef p) (disabledIndices p);
                (s2, e2) = (if key = ''Home''
                            then (s1\<lparr>indexRef := minIndex\<rparr>, [Navigate (Some minIndex)])
                            else (s1, []));
                (s3, e3) = (if key = ''End''
                            then (s2\<lparr>indexRef := maxIndex\<rparr>, e2 @ [Navigate (Some maxIndex)])
                            else (s2, e2))
            in if isMainOrientationKey key (orientation p) then
                 (if isOpen p \<and> \<not> virtual p \<and> currentTargetIsActive p then
                    (let i = (if isMainOrientationToEndKey key (orientation p) (rtl p)
                              then minIndex else maxIndex)
                     in (s3\<lparr>indexRef := i\<rparr>, e3 @ [StopEvent, Navigate (Some i)]))
                  else
                    (let i = nextMainIndex p key currentIndex
                     in (s3\<lparr>indexRef := i\<rparr>,
                         e3 @ [StopEvent,
                               Navigate (if isIndexOutOfBounds (listRef p) i then None else Some i)])))
               else (s3, e3)))"

text \<open>
  \<open>Array.prototype.indexOf\<close>: the first position of a value, \<open>-1\<close> when absent.
\<close>

fun indexOfFrom :: "'a list \<Rightarrow> 'a \<Rightarrow> int \<Rightarrow> int" where
  "indexOfFrom [] v i = - 1"
| "indexOfFrom (x # xs) v i = (if x = v then i else indexOfFrom xs v (i + 1))"

definition indexOf :: "'a list \<Rightarrow> 'a \<Rightarrow> int" where
  "indexOf xs v = indexOfFrom xs v 0"

text \<open>The key-down handler of the reference element.\<close>

definition referenceOnKeyDown :: "navProps \<Rightarrow> string \<Rightarrow> navState \<Rightarrow> navState \<times> navEffect list" where
  "referenceOnKeyDown p key s =
     (let s1 = s\<lparr>blockPointerLeaveRef := True\<rparr>
      in if virtual p \<and> isOpen p then onKeyDown p key s1
         else
           (let isNavigationKey = (take 5 key = ''Arrow'' \<or> key = ''Enter'' \<or> key = '' '' \<or> key = []);
                s2 = (if isNavigationKey then s1\<lparr>keyRef := Some key\<rparr> else s1)
            in if nested p then
                 (if isCrossOrientationOpenKey key (orientation p) (rtl p) then
                    (if isOpen p then
                       (let m = getMinIndex (listRef p) (disabledIndices p)
                        in (s2\<lparr>indexRef := m\<rparr>, [StopEvent, Navigate (Some m)]))
                     else (s2, [StopEvent, OpenChange True]))
                  else (s2, []))
               else if isMainOrientationKey key (orientation p) then
                 (let s3 = (case selectedIndex p of Some i \<Rightarrow> s2\<lparr>indexRef := i\<rparr> | None \<Rightarrow> s2);
                      (s4, e4) = (if \<not> isOpen p \<and> openOnArrowKeyDown p
                                  then (s3, [OpenChange True])
                                  else onKeyDown p key s3)
                  in (s4, [StopEvent] @ e4 @ (if isOpen p then [Navigate (Some (indexRef s4))] else [])))
               else (s2, [])))"

text \<open>
  The handlers of an item. \<open>onFocus\<close> and \<open>onMouseMove\<close> get the element the event
  is delivered to; \<open>onMouseMove\<close> and \<open>onPointerLeave\<close> exist only with
  \<open>focusItemOnHover\<close>.
\<close>

definition itemOnFocus :: "navProps \<Rightarrow> item \<Rightarrow> navState \<Rightarrow> navState \<times> navEffect list" where
  "itemOnFocus p currentTarget s =
     (let index = indexOf (listRef p) (Some currentTarget)
      in if index \<noteq> - 1 then (s, [Navigate (Some index)]) else (s, []))"

definition itemOnMouseMove :: "navProps \<Rightarrow> item option \<Rightarrow> navState \<Rightarrow> navState \<times> navEffect list" where
  "itemOnMouseMove p currentTarget s =
     (if \<not> focusItemOnHover p then (s, [])
      else case currentTarget of
             None \<Rightarrow> (s, [])
           | Some target \<Rightarrow>
               (let index = indexOf (listRef p) (Some target)
                in if index \<noteq> - 1 then (s, [Navigate (Some index)]) else (s, [])))"

definition itemOnPointerLeave :: "navProps \<Rightarrow> navState \<Rightarrow> navState \<times> navEffect list" where
  "itemOnPointerLeave p s =
     (if \<not> focusItemOnHover p then (s, [])
      else if \<not> blockPointerLeaveRef s then
        (s\<lparr>indexRef := - 1\<rparr>,
         [FocusItem (- 1), Navigate None] @ (if \<not> virtual p then [FocusFloating] else []))
      else (s, []))"

definition floatingOnPointerMove :: "navState \<Rightarrow> navState \<times> navEffect list" where
  "floatingOnPointerMove s = (s\<lparr>blockPointerLeaveRef := False\<rparr>, [])"

text \<open>The operations of the navigation state machine, and a run of them.\<close>

datatype navEvent =
    FloatingKeyDown string
  | ReferenceKeyDown string
  | ItemFocus item
  | ItemMouseMove "item option"
  | ItemPointerLeave
  | FloatingPointerMove

fun navStep :: "navProps \<Rightarrow> navEvent \<Rightarrow> navState \<Rightarrow> navState \<times> navEffect list" where
  "navStep p (FloatingKeyDown key) s = onKeyDown p key s"
| "navStep p (ReferenceKeyDown key) s = referenceOnKeyDown p key s"
| "navStep p (ItemFocus el) s = itemOnFocus p el s"
| "navStep p (ItemMouseMove el) s = itemOnMouseMove p el s"
| "navStep p ItemPointerLeave s = itemOnPointerLeave p s"
| "navStep p FloatingPointerMove s = floatingOnPointerMove s"

text \<open>
  A run takes, with each event, the props of the render it happens in, and returns
  every effect with the props and the event it came from.
\<close>

fun navRun :: "navState \<Rightarrow> (navProps \<times> navEvent) list \<Rightarrow> (navProps \<times> navEvent \<times> navEffect) list" where
  "navRun s [] = []"
| "navRun s ((p, ev) # rest) =
     (let (s', effs) = navStep p ev s
      in map (\<lambda>e. (p, ev, e)) effs @ navRun s' rest)"

text \<open>Fixtures: the grid of the visual test, a three-item list with escape, a two-item list with a disabled first index.\<close>

definition gridDisabledIndices :: "int list" where
  "gridDisabledIndices = [0, 1, 2, 5, 10, 15, 46, 47, 48]"

definition gridProps :: navProps where
  "gridProps = \<lparr>listRef = map (\<lambda>i. Some \<lparr>elemId = i, hasDisabledAttr = int i \<in> set gridDisabledIndices, ariaDisabled = None\<rparr>) [0..<49],
     isOpen = True, selectedIndex = None, allowEscape = False, loop = True, nested = False,
     rtl = False, virtual = False, focusItemOnHover = True, openOnArrowKeyDown = False,
     disabledIndices = Some gridDisabledIndices, orientation = Horizontal,
     currentTargetIsActive = False, referenceIsHTMLElement = True\<rparr>"

definition escapeProps :: "bool \<Rightarrow> navProps" where
  "escapeProps v = \<lparr>listRef = map (\<lambda>i. Some \<lparr>elemId = i, hasDisabledAttr = False, ariaDisabled = None\<rparr>) [0..<3],
     isOpen = True, selectedIndex = None, allowEscape = True, loop = True, nested = False,
     rtl = False, virtual = v, focusItemOnHover = True, openOnArrowKeyDown = True,
     disabledIndices = Some [], orientation = Vertical,
     currentTargetIsActive = False, referenceIsHTMLElement = True\<rparr>"

definition reportable :: "navProps \<Rightarrow> int \<Rightarrow> bool" where
  "reportable p i = (isIndexOutOfBounds (listRef p) i
                     \<or> \<not> isDisabledAt (listRef p) (disabledIndices p) i)"

definition hoverItem :: "nat \<Rightarrow> item" where
  "hoverItem n = \<lparr>elemId = n, hasDisabledAttr = False, ariaDisabled = None\<rparr>"

definition hoverProps :: navProps where
  "hoverProps = \<lparr>listRef = [Some (hoverItem 0), Some (hoverItem 1)],
     isOpen = True, selectedIndex = None, allowEscape = False, loop = False, nested = False,
     rtl = False, virtual = False, focusItemOnHover = True, openOnArrowKeyDown = True,
     disabledIndices = Some [0], orientation = Vertical,
     currentTargetIsActive = False, referenceIsHTMLElement = True\<rparr>"

section \<open>Typeahead (useTypeahead)\<close>

text \<open>
  \<open>toLocaleLowerCase\<close> on the letters A to Z; every other character is left as it is
  (labels outside ASCII and locale-specific case rules are not modelled).
\<close>

definition toLowerChar :: "char \<Rightarrow> char" where
  "toLowerChar c =
     (case map_of (zip ''ABCDEFGHIJKLMNOPQRSTUVWXYZ'' ''abcdefghijklmnopqrstuvwxyz'') c of
        Some l \<Rightarrow> l
      | None \<Rightarrow> c)"

definition toLocaleLowerCase :: "string \<Rightarrow> string" where
  "toLocaleLowerCase text = map toLowerChar text"

text \<open>
  \<open>Array.prototype.slice(start, end)\<close>: a negative bound counts from the end, and both
  bounds are clamped to the array.
\<close>

definition jsSlice :: "'a list \<Rightarrow> int \<Rightarrow> int \<Rightarrow> 'a list" where
  "jsSlice xs start end =
     (let len = int (length xs);
          from = (if start < 0 then max (len + start) 0 else min start len);
          to = (if end < 0 then max (len + end) 0 else min end len)
      in take (nat (to - from)) (drop (nat from) xs))"

text \<open>\<open>text[i]\<close> of a string: the character, or undefined past the end.\<close>

definition charAt :: "string \<Rightarrow> nat \<Rightarrow> char option" where
  "charAt text i = (if i < length text then Some (text ! i) else None)"

record typeaheadProps =
  taListRef :: "string option list option"
  taOpen :: bool
  taActiveIndex :: "int option"
  taSelectedIndex :: "int option"
  ignoreKeys :: "string list"
  findMatch :: "(string option list \<Rightarrow> string \<Rightarrow> string option) option"
  focusWithin :: bool

record typeaheadState =
  stringRef :: string
  prevIndexRef :: "int option"
  matchIndexRef :: "int option"
  typing :: bool

datatype typeaheadEffect = OnMatch int | StopSpace | ClearTimeout | SetTimeout

text \<open>The refs as \<open>useRef\<close> creates them on the first render.\<close>

definition typeaheadInit :: "typeaheadProps \<Rightarrow> typeaheadState" where
  "typeaheadInit p =
     \<lparr>stringRef = [],
      prevIndexRef = Some (case taSelectedIndex p of
                             Some i \<Rightarrow> i
                           | None \<Rightarrow> (case taActiveIndex p of Some j \<Rightarrow> j | None \<Rightarrow> - 1)),
      matchIndexRef = None,
      typing = False\<rparr>"

text \<open>
  The two layout effects: the reset when the floating element opens, and the
  synchronisation with arrow-key navigation while the buffer is empty.
\<close>

definition typeaheadOnOpen :: "typeaheadProps \<Rightarrow> typeaheadState \<Rightarrow> typeaheadState" where
  "typeaheadOnOpen p s = (if taOpen p then s\<lparr>matchIndexRef := None, stringRef := []\<rparr> else s)"

definition typeaheadSync :: "typeaheadProps \<Rightarrow> typeaheadState \<Rightarrow> typeaheadState" where
  "typeaheadSync p s =
     (if taOpen p \<and> stringRef s = []
      then s\<lparr>prevIndexRef := Some (case taSelectedIndex p of
                                      Some i \<Rightarrow> i
                                    | None \<Rightarrow> (case taActiveIndex p of Some j \<Rightarrow> j | None \<Rightarrow> - 1))\<rparr>
      else s)"

text \<open>The callback of the reset timer.\<close>

definition typeaheadTimeout :: "typeaheadState \<Rightarrow> typeaheadState" where
  "typeaheadTimeout s = s\<lparr>stringRef := [], prevIndexRef := matchIndexRef s, typing := False\<rparr>"

definition allowRapidSuccessionOfFirstLetter :: "string option list \<Rightarrow> bool" where
  "allowRapidSuccessionOfFirstLetter listContent =
     list_all (\<lambda>text. case text of
                         None \<Rightarrow> True
                       | Some t \<Rightarrow>
                           (if t \<noteq> []
                            then map_option toLowerChar (charAt t 0) \<noteq> map_option toLowerChar (charAt t 1)
                            else True))
              listContent"

text \<open>
  The default matcher: the first entry of the rotated list whose lower-cased text has the
  buffer at position 0.
\<close>

definition startsWithBuffer :: "string \<Rightarrow> string option \<Rightarrow> bool" where
  "startsWithBuffer buf text =
     (case text of
        None \<Rightarrow> False
      | Some t \<Rightarrow> take (length buf) (toLocaleLowerCase t) = buf)"

text \<open>
  Lines 2587 to 2590: the list rotated to start just after \<open>prevIndex\<close>, the matching
  text, and its position in the list as it is (\<open>-1\<close> for none).
\<close>

definition matchIndex ::
  "typeaheadProps \<Rightarrow> string option list \<Rightarrow> int option \<Rightarrow> string \<Rightarrow> int" where
  "matchIndex p listContent prevIndex buf =
     (let k = (case prevIndex of Some i \<Rightarrow> i | None \<Rightarrow> 0) + 1;
          orderedList = jsSlice listContent k (int (length listContent)) @ jsSlice listContent 0 k;
          str = (case findMatch p of
                   Some f \<Rightarrow> f orderedList buf
                 | None \<Rightarrow>
                     (case find (startsWithBuffer buf) orderedList of
                        Some text \<Rightarrow> text
                      | None \<Rightarrow> None))
      in case str of
           None \<Rightarrow> - 1
         | Some t \<Rightarrow> if t \<noteq> [] then indexOf listContent (Some t) else - 1)"

definition typeaheadOnKeyDown ::
  "typeaheadProps \<Rightarrow> string \<Rightarrow> typeaheadState \<Rightarrow> typeaheadState \<times> typeaheadEffect list" where
  "typeaheadOnKeyDown p key s =
     (if \<not> focusWithin p then (s, [])
      else
        (let (s1, e1) = (if stringRef s \<noteq> [] \<and> hd (stringRef s) \<noteq> CHR '' ''
                         then (s\<lparr>typing := True\<rparr>, if key = '' '' then [StopSpace] else [])
                         else (s, []))
         in case taListRef p of
              None \<Rightarrow> (s1, e1)
            | Some listContent \<Rightarrow>
                if key \<in> set ([''Home'', ''End'', ''Escape'', ''Enter'', ''Tab'', ''ArrowUp'',
                                ''ArrowDown'', ''ArrowLeft'', ''ArrowRight''] @ ignoreKeys p)
                then (s1, e1)
                else
                  (let s2 = (if allowRapidSuccessionOfFirstLetter listContent \<and> stringRef s1 = key
                             then s1\<lparr>stringRef := [], prevIndexRef := matchIndexRef s1\<rparr>
                             else s1);
                       s3 = s2\<lparr>stringRef := stringRef s2 @ key\<rparr>;
                       index = matchIndex p listContent (prevIndexRef s3) (stringRef s3)
                   in if index \<noteq> - 1
                      then (s3\<lparr>matchIndexRef := Some index\<rparr>,
                            e1 @ [ClearTimeout, SetTimeout, OnMatch index])
                      else (s3, e1 @ [ClearTimeout, SetTimeout]))))"

text \<open>The labels of the typeahead example, with the defaults of every option.\<close>

definition fruitProps :: typeaheadProps where
  "fruitProps =
     \<lparr>taListRef = Some [Some ''Apple'', Some ''Apricot'', Some ''Banana''],
      taOpen = True, taActiveIndex = None, taSelectedIndex = None,
      ignoreKeys = [], findMatch = None, focusWithin = True\<rparr>"

section \<open>Hover intent: the safe polygon\<close>

text \<open>
  Coordinates are JavaScript numbers; the model computes with reals. On the rectangles
  and points used below every intermediate value is a multiple of one half of moderate
  size, which a double represents exactly, so the two agree there.
\<close>

type_synonym point = "real \<times> real"

text \<open>\<open>polygon[i] || [0, 0]\<close>\<close>

definition pointAt :: "point list \<Rightarrow> nat \<Rightarrow> point" where
  "pointAt polygon i = (if i < length polygon then polygon ! i else (0, 0))"

text \<open>
  The ray-casting loop \<open>for (let i = 0, j = length - 1; i < length; j = i++)\<close>, as a
  fold over the indices that carries \<open>j\<close> and \<open>isInside\<close>.
\<close>

definition isPointInPolygon :: "point \<Rightarrow> point list \<Rightarrow> bool" where
  "isPointInPolygon pt polygon =
     (let x = fst pt; y = snd pt
      in snd (fold (\<lambda>i (j, isInside).
                      (let xi = fst (pointAt polygon i); yi = snd (pointAt polygon i);
                           xj = fst (pointAt polygon j); yj = snd (pointAt polygon j);
                           intersect = ((yi \<ge> y) \<noteq> (yj \<ge> y)
                                        \<and> x \<le> (xj - xi) * (y - yi) / (yj - yi) + xi)
                       in (i, if intersect then \<not> isInside else isInside)))
                   [0..<length polygon]
                   (length polygon - 1, False)))"

text \<open>A bounding client rectangle, given by its origin and size.\<close>

record rect =
  rectX :: real
  rectY :: real
  width :: real
  height :: real

definition left :: "rect \<Rightarrow> real" where "left r = rectX r"
definition top' :: "rect \<Rightarrow> real" where "top' r = rectY r"
definition right :: "rect \<Rightarrow> real" where "right r = rectX r + width r"
definition bottom :: "rect \<Rightarrow> real" where "bottom r = rectY r + height r"

datatype side = SideTop | SideBottom | SideLeft | SideRight

text \<open>
  The function \<open>getPolygon\<close> inside the handler; \<open>(x, y)\<close> is where the pointer left
  the reference.
\<close>

definition getPolygon :: "real \<Rightarrow> side \<Rightarrow> rect \<Rightarrow> rect \<Rightarrow> point \<Rightarrow> point list" where
  "getPolygon buffer sd refRect rct xy =
     (let x = fst xy; y = snd xy;
          cursorLeaveFromRight = (x > right rct - width rct / 2);
          cursorLeaveFromBottom = (y > bottom rct - height rct / 2);
          isFloatingWider = (width rct > width refRect);
          isFloatingTaller = (height rct > height refRect)
      in case sd of
           SideTop \<Rightarrow>
             (let cursorPointOne = (if isFloatingWider then x + buffer / 2
                                    else if cursorLeaveFromRight then x + buffer * 4 else x - buffer * 4,
                                    y + buffer + 1);
                  cursorPointTwo = (if isFloatingWider then x - buffer / 2
                                    else if cursorLeaveFromRight then x + buffer * 4 else x - buffer * 4,
                                    y + buffer + 1);
                  commonPoints =
                    [(left rct, if cursorLeaveFromRight then bottom rct - buffer
                                else if isFloatingWider then bottom rct - buffer else top' rct),
                     (right rct, if cursorLeaveFromRight
                                 then (if isFloatingWider then bottom rct - buffer else top' rct)
                                 else bottom rct - buffer)]
              in [cursorPointOne, cursorPointTwo] @ commonPoints)
         | SideBottom \<Rightarrow>
             (let cursorPointOne = (if isFloatingWider then x + buffer / 2
                                    else if cursorLeaveFromRight then x + buffer * 4 else x - buffer * 4,
                                    y - buffer);
                  cursorPointTwo = (if isFloatingWider then x - buffer / 2
                                    else if cursorLeaveFromRight then x + buffer * 4 else x - buffer * 4,
                                    y - buffer);
                  commonPoints =
                    [(left rct, if cursorLeaveFromRight then top' rct + buffer
                                else if isFloatingWider then top' rct + buffer else bottom rct),
                     (right rct, if cursorLeaveFromRight
                                 then (if isFloatingWider then top' rct + buffer else bottom rct)
                                 else top' rct + buffer)]
              in [cursorPointOne, cursorPointTwo] @ commonPoints)
         | SideLeft \<Rightarrow>
             (let cursorPointOne = (x + buffer + 1,
                                    if isFloatingTaller then y + buffer / 2
                                    else if cursorLeaveFromBottom then y + buffer * 4 else y - buffer * 4);
                  cursorPointTwo = (x + buffer + 1,
                                    if isFloatingTaller then y - buffer / 2
                                    else if cursorLeaveFromBottom then y + buffer * 4 else y - buffer * 4);
                  commonPoints =
                    [(if cursorLeaveFromBottom then right rct - buffer
                      else if isFloatingTaller then right rct - buffer else left rct, top' rct),
                     (if cursorLeaveFromBottom
                      then (if isFloatingTaller then right rct - buffer else left rct)
                      else right rct - buffer, bottom rct)]
              in commonPoints @ [cursorPointOne, cursorPointTwo])
         | SideRight \<Rightarrow>
             (let cursorPointOne = (x - buffer,
                                    if isFloatingTaller then y + buffer / 2
                                    else if cursorLeaveFromBottom then y + buffer * 4 else y - buffer * 4);
                  cursorPointTwo = (x - buffer,
                                    if isFloatingTaller then y - buffer / 2
                                    else if cursorLeaveFromBottom then y + buffer * 4 else y - buffer * 4);
                  commonPoints =
                    [(if cursorLeaveFromBottom then left rct + buffer
                      else if isFloatingTaller then left rct + buffer else right rct, top' rct),
                     (if cursorLeaveFromBottom
                      then (if isFloatingTaller then left rct + buffer else right rct)
                      else left rct + buffer, bottom rct)]
              in [cursorPointOne, cursorPointTwo] @ commonPoints))"

text \<open>
  What the handler is created with (the options of \<open>safePolygon\<close> and the context that
  \<open>useHover\<close> passes) and the pointer event it receives. An element ref is the
  element's bounding rectangle, or null; whether an element contains the event's target
  comes with the event and is read only for a ref that is set. The placement is given by
  its side, or null.
\<close>

record polygonContext =
  restMs :: real
  buffer :: real
  leaveX :: "real option"
  leaveY :: "real option"
  placement :: "side option"
  domReference :: "rect option"
  floating :: "rect option"
  hoverNodeId :: "string option"
  tree :: "floatingNode list option"
  leave :: bool

record pointerEvent =
  pointerType :: "string option"
  eventType :: string
  clientX :: real
  clientY :: real
  targetInReference :: bool
  targetInFloating :: bool

text \<open>The closure's variables: the destroy flag and whether a close timer is pending.\<close>

record polygonState =
  polygonIsDestroyed :: bool
  timerPending :: bool

datatype polygonEffect = ClearTimer | OnClose | SetCloseTimer real

text \<open>The four tests for a pointer that left on the side away from the floating element.\<close>

definition leftOppositeSide :: "side \<Rightarrow> rect \<Rightarrow> real \<Rightarrow> real \<Rightarrow> bool" where
  "leftOppositeSide sd refRect x y =
     (sd = SideTop \<and> y \<ge> bottom refRect - 1 \<or> sd = SideBottom \<and> y \<le> top' refRect + 1
      \<or> sd = SideLeft \<and> x \<ge> right refRect - 1 \<or> sd = SideRight \<and> x \<le> left refRect + 1)"

text \<open>The switch over the side: the pointer is in the trough between the two elements.\<close>

definition inTrough :: "side \<Rightarrow> rect \<Rightarrow> rect \<Rightarrow> real \<Rightarrow> real \<Rightarrow> bool" where
  "inTrough sd refRect rct cx cy =
     (case sd of
        SideTop \<Rightarrow> cx \<ge> left rct \<and> cx \<le> right rct \<and> cy \<ge> top' rct \<and> cy \<le> top' refRect + 1
      | SideBottom \<Rightarrow> cx \<ge> left rct \<and> cx \<le> right rct \<and> cy \<ge> bottom refRect - 1 \<and> cy \<le> bottom rct
      | SideLeft \<Rightarrow> cx \<ge> left rct \<and> cx \<le> left refRect + 1 \<and> cy \<ge> top' rct \<and> cy \<le> bottom rct
      | SideRight \<Rightarrow> cx \<ge> right refRect - 1 \<and> cx \<le> right rct \<and> cy \<ge> top' rct \<and> cy \<le> bottom rct)"

text \<open>
  The handler \<open>onPointerMove\<close>. It returns the closure's state and the effects in order;
  \<open>None\<close> only when \<open>getChildren\<close> does not return. \<open>close()\<close> clears the timer and
  calls \<open>onClose\<close>.
\<close>

definition onPointerMove ::
  "polygonContext \<Rightarrow> pointerEvent \<Rightarrow> polygonState \<Rightarrow> (polygonState \<times> polygonEffect list) option" where
  "onPointerMove c ev s =
     (let s0 = s\<lparr>timerPending := False\<rparr>
      in if (case pointerType ev of None \<Rightarrow> False | Some t \<Rightarrow> t \<noteq> [] \<and> t \<noteq> ''mouse'')
         then Some (s0, [ClearTimer])
         else if eventType ev = ''pointermove'' \<and> domReference c \<noteq> None \<and> targetInReference ev
         then Some (s0, [ClearTimer])
         else
           Option.bind (case tree c of
                          None \<Rightarrow> Some False
                        | Some nodes \<Rightarrow> map_option (list_ex contextOpen) (getChildren nodes (hoverNodeId c)))
             (\<lambda>childOpen.
                if childOpen then Some (s0, [ClearTimer])
                else if floating c \<noteq> None \<and> targetInFloating ev \<and> \<not> leave c
                then Some (s0\<lparr>polygonIsDestroyed := True\<rparr>, [ClearTimer])
                else
                  (case (domReference c, floating c, placement c, leaveX c, leaveY c) of
                     (Some refRect, Some rct, Some sd, Some x, Some y) \<Rightarrow>
                       if leftOppositeSide sd refRect x y
                       then Some (s0, [ClearTimer, ClearTimer, OnClose])
                       else if inTrough sd refRect rct (clientX ev) (clientY ev)
                       then Some (s0, [ClearTimer])
                       else if polygonIsDestroyed s0
                       then Some (s0, [ClearTimer, ClearTimer, OnClose])
                       else if \<not> isPointInPolygon (clientX ev, clientY ev)
                                   (getPolygon (buffer c) sd refRect rct (x, y))
                       then Some (s0, [ClearTimer, ClearTimer, OnClose])
                       else if restMs c \<noteq> 0
                       then Some (s0\<lparr>timerPending := True\<rparr>, [ClearTimer, SetCloseTimer (restMs c)])
                       else Some (s0, [ClearTimer])
                   | _ \<Rightarrow> Some (s0, [ClearTimer]))))"

text \<open>
  The setting of the safe-polygon example: reference \<open>{x:0, y:0, w:100, h:40}\<close>, floating
  element \<open>{x:0, y:40, w:100, h:60}\<close> placed at the bottom, the pointer having left the
  reference at \<open>(50, 38)\<close>, the default options.
\<close>

definition exampleContext :: "floatingNode list option \<Rightarrow> string option \<Rightarrow> bool \<Rightarrow> polygonContext" where
  "exampleContext t nid lv =
     \<lparr>restMs = 0, buffer = 1 / 2, leaveX = Some 50, leaveY = Some 38, placement = Some SideBottom,
      domReference = Some \<lparr>rectX = 0, rectY = 0, width = 100, height = 40\<rparr>,
      floating = Some \<lparr>rectX = 0, rectY = 40, width = 100, height = 60\<rparr>,
      hoverNodeId = nid, tree = t, leave = lv\<rparr>"

definition farEvent :: pointerEvent where
  "farEvent = \<lparr>pointerType = Some ''mouse'', eventType = ''pointermove'', clientX = 500,
     clientY = 500, targetInReference = False, targetInFloating = False\<rparr>"

section \<open>The dismiss coordinator (useDismiss)\<close>

record dismissProps =
  enabled :: bool
  escapeKey :: bool
  outsidePointerDown :: bool
  referencePointerDown :: bool
  ancestorScroll :: bool
  bubbles :: bool



datatype dismissPayload = PreventScroll bool | PayloadFalse | NoPayload

datatype dismissEffect = EmitDismiss dismissPayload | OnOpenChange bool






text \<open>The pointer-down handler the hook puts on the reference element.\<close>

definition dismissReferenceOnPointerDown :: "dismissProps \<Rightarrow> dismissEffect list" where
  "dismissReferenceOnPointerDown p =
     (if enabled p \<and> referencePointerDown p then [EmitDismiss NoPayload, OnOpenChange False] else [])"




section \<open>The prop-getter merge (mergeProps, useInteractions)\<close>

text \<open>
  A prop value is a function or something else (\<open>typeof value === 'function'\<close>). A
  function is known by an identity; calling it is recorded as the pair of that identity
  and the arguments. An object is the list of its entries in insertion order.
\<close>

datatype attr = NumV int | StrV string | BoolV bool | UndefinedV

datatype propValue = Fn nat | Attr attr

type_synonym props = "(string \<times> propValue) list"

datatype elementKey = ReferenceKey | FloatingKey | ItemKey

text \<open>
  An element of \<open>propsList\<close> is what a hook returned: a falsy value, or an object that
  may have a prop object under each element key.
\<close>

type_synonym propSet = "(elementKey \<Rightarrow> props option) option"

text \<open>
  A value of the merged object: a value taken over as it is, or the closure that
  \<open>mergeProps\<close> creates for an event key, which looks the key up in the shared \<open>map\<close>
  when it is called.
\<close>

datatype mergedValue = Plain propValue | MergedHandler string

type_synonym handlerMap = "string \<Rightarrow> nat list option"

text \<open>\<open>key.indexOf('on') === 0\<close>\<close>

definition isEventKey :: "string \<Rightarrow> bool" where
  "isEventKey key = (take 2 key = ''on'')"

text \<open>The body of the \<open>forEach\<close> over the entries of one prop object.\<close>

definition mergeEntry ::
  "(string \<times> mergedValue) list \<times> handlerMap \<Rightarrow> string \<times> propValue
     \<Rightarrow> (string \<times> mergedValue) list \<times> handlerMap" where
  "mergeEntry am kv =
     (let acc = fst am; m = snd am; key = fst kv; v = snd kv
      in if isEventKey key then
           (let m1 = (if m key = None then m(key \<mapsto> []) else m);
                m2 = (case v of
                        Fn f \<Rightarrow> (case m1 key of Some fs \<Rightarrow> m1(key \<mapsto> fs @ [f]) | None \<Rightarrow> m1)
                      | Attr a \<Rightarrow> m1)
            in (AList.update key (MergedHandler key) acc, m2))
         else (AList.update key (Plain v) acc, m))"

text \<open>The callback of \<open>reduce\<close>: a falsy element is skipped.\<close>

definition mergeStep ::
  "(string \<times> mergedValue) list \<times> handlerMap \<Rightarrow> props option
     \<Rightarrow> (string \<times> mergedValue) list \<times> handlerMap" where
  "mergeStep am ps = (case ps of None \<Rightarrow> am | Some entries \<Rightarrow> foldl mergeEntry am entries)"

text \<open>Object spread into an object under construction.\<close>

definition spread :: "(string \<times> 'v) list \<Rightarrow> (string \<times> 'v) list \<Rightarrow> (string \<times> 'v) list" where
  "spread obj entries = foldl (\<lambda>ob kv. AList.update (fst kv) (snd kv) ob) obj entries"

text \<open>
  \<open>mergeProps\<close> returns the merged object; the model returns with it the final \<open>map\<close>
  that the object's closures share.
\<close>

definition mergeProps ::
  "props option \<Rightarrow> propSet list \<Rightarrow> elementKey \<Rightarrow> (string \<times> mergedValue) list \<times> handlerMap" where
  "mergeProps userProps propsList elementKey =
     (let contributed = map (\<lambda>v. case v of None \<Rightarrow> None | Some ps \<Rightarrow> ps elementKey) propsList
                        @ [userProps];
          reduced = foldl mergeStep ([], Map.empty) contributed;
          obj0 = (if elementKey = FloatingKey then [(''tabIndex'', Plain (Attr (NumV (- 1))))] else []);
          obj1 = spread obj0 (case userProps of
                                None \<Rightarrow> []
                              | Some u \<Rightarrow> map (\<lambda>kv. (fst kv, Plain (snd kv))) u)
      in (spread obj1 (fst reduced), snd reduced))"

text \<open>
  Calling a value of the merged object with arguments: the calls it makes, in order.
  The closure runs every function stored under its key; a plain function runs itself.
\<close>

definition invoke :: "handlerMap \<Rightarrow> mergedValue \<Rightarrow> 'a \<Rightarrow> (nat \<times> 'a) list" where
  "invoke m v args =
     (case v of
        MergedHandler key \<Rightarrow> map (\<lambda>f. (f, args)) (case m key of Some fs \<Rightarrow> fs | None \<Rightarrow> [])
      | Plain (Fn f) \<Rightarrow> [(f, args)]
      | Plain (Attr a) \<Rightarrow> [])"

text \<open>The three prop getters of \<open>useInteractions\<close>.\<close>

definition getReferenceProps :: "propSet list \<Rightarrow> props option \<Rightarrow> (string \<times> mergedValue) list \<times> handlerMap" where
  "getReferenceProps propsList userProps = mergeProps userProps propsList ReferenceKey"

definition getFloatingProps :: "propSet list \<Rightarrow> props option \<Rightarrow> (string \<times> mergedValue) list \<times> handlerMap" where
  "getFloatingProps propsList userProps = mergeProps userProps propsList FloatingKey"

definition getItemProps :: "propSet list \<Rightarrow> props option \<Rightarrow> (string \<times> mergedValue) list \<times> handlerMap" where
  "getItemProps propsList userProps = mergeProps userProps propsList ItemKey"

text \<open>
  In the words of the merge rule: the contributed entries in contribution order (the
  hooks' prop objects for the element, then the caller's), and the functions
  contributed for one key, in that order.
\<close>

definition contributions :: "props option \<Rightarrow> propSet list \<Rightarrow> elementKey \<Rightarrow> props" where
  "contributions userProps propsList elementKey =
     concat (map (\<lambda>v. case v of
                        None \<Rightarrow> []
                      | Some ps \<Rightarrow> (case ps elementKey of None \<Rightarrow> [] | Some entries \<Rightarrow> entries))
                 propsList)
     @ (case userProps of None \<Rightarrow> [] | Some u \<Rightarrow> u)"

definition contributedHandlers :: "string \<Rightarrow> props \<Rightarrow> nat list" where
  "contributedHandlers key entries =
     concat (map (\<lambda>kv. case snd kv of Fn f \<Rightarrow> if fst kv = key then [f] else [] | Attr a \<Rightarrow> []) entries)"

text \<open>Two hooks that each contribute a click handler and a role, and a caller's props.\<close>

definition hookA :: propSet where
  "hookA = Some (\<lambda>k. if k = ReferenceKey
                      then Some [(''onClick'', Fn 1), (''role'', Attr (StrV ''menu''))] else None)"

definition hookB :: propSet where
  "hookB = Some (\<lambda>k. if k = ReferenceKey
                      then Some [(''aria-expanded'', Attr (BoolV True)), (''onClick'', Fn 2)] else None)"

definition callerProps :: props where
  "callerProps = [(''role'', Attr (StrV ''button'')), (''onClick'', Fn 3)]"

section \<open>The aria-hidden ledger (hideOthers)\<close>

text \<open>
  The document is a tree of elements. An element is known by its path from the root (the
  child indices), so \<open>el.parentNode\<close> is the path without its last index, and null for
  the root. \<open>hideOthers\<close> changes attributes only, never the tree: the attributes are a
  store from element and attribute name to the value, \<open>None\<close> for an absent attribute.
\<close>

datatype dom = Element "dom list"

type_synonym path = "nat list"

fun subtreeAt :: "dom \<Rightarrow> path \<Rightarrow> dom option" where
  "subtreeAt d [] = Some d"
| "subtreeAt (Element kids) (i # rest) = (if i < length kids then subtreeAt (kids ! i) rest else None)"

definition parentNode :: "path \<Rightarrow> path option" where
  "parentNode el = (if el = [] then None else Some (butlast el))"

text \<open>
  The counters are JavaScript numbers: \<open>counterMap.get(node) - 1\<close> on a missing entry is
  NaN, and \<open>!counterValue\<close> holds for 0 and for NaN.
\<close>

datatype jsnum = Num int | NaN

definition orZeroPlusOne :: "jsnum option \<Rightarrow> jsnum" where
  "orZeroPlusOne v = (case v of Some (Num n) \<Rightarrow> Num (n + 1) | Some NaN \<Rightarrow> Num 1 | None \<Rightarrow> Num 1)"

definition minusOne :: "jsnum option \<Rightarrow> jsnum" where
  "minusOne v = (case v of Some (Num n) \<Rightarrow> Num (n - 1) | Some NaN \<Rightarrow> NaN | None \<Rightarrow> NaN)"

definition falsy :: "jsnum \<Rightarrow> bool" where
  "falsy v = (case v of Num n \<Rightarrow> n = 0 | NaN \<Rightarrow> True)"

text \<open>
  The module's globals and the attribute store. \<open>markerMap\<close> holds, per marker name, a
  reference to a WeakMap; the WeakMaps live in a heap, because a release function keeps
  the reference to its \<open>markerCounter\<close> after \<open>markerMap\<close> has been replaced.
\<close>

record world =
  attrs :: "path \<Rightarrow> string \<Rightarrow> string option"
  counterMap :: "path \<Rightarrow> jsnum option"
  uncontrolledNodes :: "path set"
  markerMap :: "string \<Rightarrow> nat option"
  weakMaps :: "nat \<Rightarrow> path \<Rightarrow> jsnum option"
  weakMapCount :: nat
  lockCount :: int

text \<open>What a release function has captured.\<close>

record closure =
  hiddenNodes :: "path list"
  markerCounter :: nat
  closureMarkerName :: string

text \<open>
  The function \<open>keep\<close>: the element and its ancestors go into \<open>elementsToKeep\<close>, up to
  the first one that is there already.
\<close>

function keep :: "path set \<Rightarrow> path option \<Rightarrow> path set" where
  "keep elementsToKeep el =
     (case el of
        None \<Rightarrow> elementsToKeep
      | Some p \<Rightarrow> if p \<in> elementsToKeep then elementsToKeep
                  else keep (insert p elementsToKeep) (parentNode p))"
  by pat_completeness auto
termination
  by (relation "measure (\<lambda>(K, el). case el of None \<Rightarrow> 0 | Some p \<Rightarrow> Suc (length p))")
     (auto simp: parentNode_def split: if_splits)

declare keep.simps [simp del]

text \<open>The else-branch of \<open>deep\<close>: one element outside the kept set is counted and hidden.\<close>

definition hideNode :: "string \<Rightarrow> nat \<Rightarrow> path \<Rightarrow> world \<times> path list \<Rightarrow> world \<times> path list" where
  "hideNode markerName ref node st =
     (let w = fst st;
          attr = attrs w node ''aria-hidden'';
          alreadyHidden = (attr \<noteq> None \<and> attr \<noteq> Some ''false'');
          counterValue = orZeroPlusOne (counterMap w node);
          markerValue = orZeroPlusOne (weakMaps w ref node);
          w1 = w\<lparr>counterMap := (counterMap w)(node \<mapsto> counterValue),
                 weakMaps := (weakMaps w)(ref := (weakMaps w ref)(node \<mapsto> markerValue))\<rparr>;
          w2 = (if counterValue = Num 1 \<and> alreadyHidden
                then w1\<lparr>uncontrolledNodes := insert node (uncontrolledNodes w1)\<rparr> else w1);
          w3 = (if markerValue = Num 1
                then w2\<lparr>attrs := (attrs w2)(node := (attrs w2 node)(markerName \<mapsto> ''true''))\<rparr> else w2);
          w4 = (if \<not> alreadyHidden
                then w3\<lparr>attrs := (attrs w3)(node := (attrs w3 node)(''aria-hidden'' \<mapsto> ''true''))\<rparr> else w3)
      in (w4, snd st @ [node]))"

text \<open>
  The function \<open>deep\<close> on an element and its path, and its \<open>forEach\<close> over the
  element's children, the child at index \<open>i\<close> first.
\<close>

fun deep :: "path list \<Rightarrow> path set \<Rightarrow> string \<Rightarrow> nat \<Rightarrow> dom \<Rightarrow> path
               \<Rightarrow> world \<times> path list \<Rightarrow> world \<times> path list"
  and deepChildren :: "path list \<Rightarrow> path set \<Rightarrow> string \<Rightarrow> nat \<Rightarrow> dom list \<Rightarrow> path \<Rightarrow> nat
               \<Rightarrow> world \<times> path list \<Rightarrow> world \<times> path list" where
  "deep targets elementsToKeep markerName ref (Element kids) parent st =
     (if parent \<in> set targets then st
      else deepChildren targets elementsToKeep markerName ref kids parent 0 st)"
| "deepChildren targets elementsToKeep markerName ref [] parent i st = st"
| "deepChildren targets elementsToKeep markerName ref (child # rest) parent i st =
     deepChildren targets elementsToKeep markerName ref rest parent (Suc i)
       (if parent @ [i] \<in> elementsToKeep
        then deep targets elementsToKeep markerName ref child (parent @ [i]) st
        else hideNode markerName ref (parent @ [i]) st)"

text \<open>
  \<open>hideOthers\<close> in a document, with \<open>parentNode\<close> an element or null. It returns the
  new state and what the returned release function has captured.
\<close>

definition hideOthers :: "dom \<Rightarrow> path list \<Rightarrow> path option \<Rightarrow> string \<Rightarrow> world \<Rightarrow> world \<times> closure" where
  "hideOthers document targets parent markerName w =
     (let w1 = (if markerMap w markerName = None
                then w\<lparr>markerMap := (markerMap w)(markerName \<mapsto> weakMapCount w),
                       weakMaps := (weakMaps w)(weakMapCount w := Map.empty),
                       weakMapCount := Suc (weakMapCount w)\<rparr>
                else w);
          ref = (case markerMap w1 markerName of Some r \<Rightarrow> r | None \<Rightarrow> 0);
          elementsToKeep = fold (\<lambda>t K. keep K (Some t)) targets {};
          st = (case parent of
                  None \<Rightarrow> (w1, [])
                | Some p \<Rightarrow> (case subtreeAt document p of
                               None \<Rightarrow> (w1, [])
                             | Some sub \<Rightarrow> deep targets elementsToKeep markerName ref sub p (w1, [])));
          w2 = fst st
      in (w2\<lparr>lockCount := lockCount w2 + 1\<rparr>,
          \<lparr>hiddenNodes = snd st, markerCounter = ref, closureMarkerName = markerName\<rparr>))"

text \<open>The body of the release function's \<open>forEach\<close>, and the release function.\<close>

definition unhideNode :: "closure \<Rightarrow> path \<Rightarrow> world \<Rightarrow> world" where
  "unhideNode c node w =
     (let counterValue = minusOne (counterMap w node);
          markerValue = minusOne (weakMaps w (markerCounter c) node);
          w1 = w\<lparr>counterMap := (counterMap w)(node \<mapsto> counterValue),
                 weakMaps := (weakMaps w)(markerCounter c := (weakMaps w (markerCounter c))(node \<mapsto> markerValue))\<rparr>;
          w2 = (if falsy counterValue
                then (let w' = (if node \<notin> uncontrolledNodes w1
                                then w1\<lparr>attrs := (attrs w1)(node := (attrs w1 node)(''aria-hidden'' := None))\<rparr>
                                else w1)
                      in w'\<lparr>uncontrolledNodes := uncontrolledNodes w' - {node}\<rparr>)
                else w1)
      in if falsy markerValue
         then w2\<lparr>attrs := (attrs w2)(node := (attrs w2 node)(closureMarkerName c := None))\<rparr>
         else w2)"

definition release :: "closure \<Rightarrow> world \<Rightarrow> world" where
  "release c w =
     (let w1 = fold (unhideNode c) (hiddenNodes c) w;
          w2 = w1\<lparr>lockCount := lockCount w1 - 1\<rparr>
      in if lockCount w2 = 0
         then w2\<lparr>counterMap := Map.empty, uncontrolledNodes := {}, markerMap := Map.empty\<rparr>
         else w2)"

text \<open>
  \<open>N\<close> activations with the same targets, parent and marker name, one after the other,
  with the release functions they return.
\<close>

fun hideOthersTimes :: "nat \<Rightarrow> dom \<Rightarrow> path list \<Rightarrow> path option \<Rightarrow> string \<Rightarrow> world
                         \<Rightarrow> world \<times> closure list" where
  "hideOthersTimes 0 document targets parent markerName w = (w, [])"
| "hideOthersTimes (Suc n) document targets parent markerName w =
     (let wc = hideOthers document targets parent markerName w;
          rest = hideOthersTimes n document targets parent markerName (fst wc)
      in (fst rest, snd wc # snd rest))"

text \<open>The ledger as the module creates it: no lock, nothing counted.\<close>

definition cleanLedger :: "world \<Rightarrow> bool" where
  "cleanLedger w = (counterMap w = Map.empty \<and> uncontrolledNodes w = {} \<and> markerMap w = Map.empty
                    \<and> lockCount w = 0)"

text \<open>
  A page: the root has a head and a body; the body has three siblings outside the modal
  and the container of the floating element. The first sibling has no \<open>aria-hidden\<close>,
  the second has \<open>aria-hidden="true"\<close>, the third \<open>aria-hidden="false"\<close>.
\<close>

definition page :: dom where
  "page = Element [Element [],
                   Element [Element [], Element [], Element [], Element [Element []]]]"

definition pageWorld :: world where
  "pageWorld =
     \<lparr>attrs = (\<lambda>el. if el = [1, 1] then [''aria-hidden'' \<mapsto> ''true'']
                     else if el = [1, 2] then [''aria-hidden'' \<mapsto> ''false'']
                     else Map.empty),
      counterMap = Map.empty, uncontrolledNodes = {}, markerMap = Map.empty,
      weakMaps = (\<lambda>r. Map.empty), weakMapCount = 0, lockCount = 0\<rparr>"

text \<open>
  The elements that \<open>deep\<close> hides, in the order it reaches them. The traversal reads
  the tree, the targets and the kept set only, never the attributes or the counters.
\<close>

fun hiddenBelow :: "path list \<Rightarrow> path set \<Rightarrow> dom \<Rightarrow> path \<Rightarrow> path list"
  and hiddenAmong :: "path list \<Rightarrow> path set \<Rightarrow> dom list \<Rightarrow> path \<Rightarrow> nat \<Rightarrow> path list" where
  "hiddenBelow targets elementsToKeep (Element kids) parent =
     (if parent \<in> set targets then [] else hiddenAmong targets elementsToKeep kids parent 0)"
| "hiddenAmong targets elementsToKeep [] parent i = []"
| "hiddenAmong targets elementsToKeep (child # rest) parent i =
     (if parent @ [i] \<in> elementsToKeep
      then hiddenBelow targets elementsToKeep child (parent @ [i])
      else [parent @ [i]])
     @ hiddenAmong targets elementsToKeep rest parent (Suc i)"

definition outsideNodes :: "dom \<Rightarrow> path list \<Rightarrow> path option \<Rightarrow> path list" where
  "outsideNodes document targets parent =
     (case parent of
        None \<Rightarrow> []
      | Some p \<Rightarrow> (case subtreeAt document p of
                     None \<Rightarrow> []
                   | Some sub \<Rightarrow> hiddenBelow targets (fold (\<lambda>t K. keep K (Some t)) targets {}) sub p))"

text \<open>
  What the ledger knows of one element and the element's \<open>aria-hidden\<close> attribute, and
  what hiding and releasing the element once do to these three.
\<close>

definition ledgerView :: "path \<Rightarrow> world \<Rightarrow> jsnum option \<times> bool \<times> string option" where
  "ledgerView el w = (counterMap w el, el \<in> uncontrolledNodes w, attrs w el ''aria-hidden'')"

definition hideLocal :: "jsnum option \<times> bool \<times> string option \<Rightarrow> jsnum option \<times> bool \<times> string option" where
  "hideLocal v =
     (let counter = fst v; uncontrolled = fst (snd v); attr = snd (snd v);
          alreadyHidden = (attr \<noteq> None \<and> attr \<noteq> Some ''false'')
      in (Some (orZeroPlusOne counter),
          uncontrolled \<or> (orZeroPlusOne counter = Num 1 \<and> alreadyHidden),
          if alreadyHidden then attr else Some ''true''))"

definition unhideLocal :: "jsnum option \<times> bool \<times> string option \<Rightarrow> jsnum option \<times> bool \<times> string option" where
  "unhideLocal v =
     (let counter = fst v; uncontrolled = fst (snd v); attr = snd (snd v)
      in (Some (minusOne counter),
          uncontrolled \<and> \<not> falsy (minusOne counter),
          if falsy (minusOne counter) \<and> \<not> uncontrolled then None else attr))"

section \<open>Properties of the floating tree\<close>

lemma parentLinks_Nil: "parentLinks [] = {}"
  by (simp add: parentLinks_def)

lemma parentLinks_Cons:
  "parentLinks (n # ns)
     = (case parentId n of Some p \<Rightarrow> insert (node_id n, p) (parentLinks ns) | None \<Rightarrow> parentLinks ns)"
  by (auto simp: parentLinks_def split: option.splits)

lemma finite_parentLinks: "finite (parentLinks nodes)"
  by (induction nodes) (simp_all add: parentLinks_Nil parentLinks_Cons split: option.splits)

lemma acyclic_by_rank:
  assumes "\<And>c p. (c, p) \<in> r \<Longrightarrow> (f p :: nat) < f c"
  shows "acyclic r"
proof -
  have "r \<subseteq> (measure f)\<inverse>" using assms by auto
  moreover have "acyclic ((measure f)\<inverse>)"
    using wf_acyclic [OF wf_measure, of f] by (simp add: acyclic_converse)
  ultimately show ?thesis by (rule acyclic_subset [rotated])
qed

lemma find_node:
  "find (\<lambda>node. Some (node_id node) = Some p) nodes = Some n \<Longrightarrow> n \<in> set nodes \<and> node_id n = p"
  by (auto simp: find_Some_iff)

lemma getAncestorsLoop_chain:
  assumes wf: "wf ((parentLinks nodes)\<inverse>)"
  shows "\<exists>ch. getAncestorsLoop nodes acc cur = Some (acc @ ch)
           \<and> ([] \<notin> node_id ` set nodes \<longrightarrow> isParentChain nodes cur ch)"
proof (cases cur)
  case None
  then show ?thesis
    by (subst getAncestorsLoop.simps) (simp add: truthy_def)
next
  case (Some p0)
  have "\<forall>acc. \<exists>ch. getAncestorsLoop nodes acc (Some p) = Some (acc @ ch)
          \<and> ([] \<notin> node_id ` set nodes \<longrightarrow> isParentChain nodes (Some p) ch)" for p
  proof (induction p rule: wf_induct_rule [OF wf])
    case (1 p)
    show ?case
    proof
      fix acc
      show "\<exists>ch. getAncestorsLoop nodes acc (Some p) = Some (acc @ ch)
          \<and> ([] \<notin> node_id ` set nodes \<longrightarrow> isParentChain nodes (Some p) ch)"
      proof (cases "p = []")
        case True
        then show ?thesis
          by (subst getAncestorsLoop.simps) (auto simp: truthy_def image_iff)
      next
        case False
        show ?thesis
        proof (cases "find (\<lambda>node. Some (node_id node) = Some p) nodes")
          case None
          then have "\<forall>n \<in> set nodes. node_id n \<noteq> p" by (auto simp: find_None_iff)
          moreover have "getAncestorsLoop nodes acc (Some p) = Some acc"
            using None False
            by (subst getAncestorsLoop.simps, subst getAncestorsLoop.simps) (simp add: truthy_def)
          ultimately show ?thesis by auto
        next
          case (Some n)
          then have n: "n \<in> set nodes" "node_id n = p" using find_node by blast+
          have unf: "getAncestorsLoop nodes acc (Some p) = getAncestorsLoop nodes (acc @ [n]) (parentId n)"
            using Some False by (subst getAncestorsLoop.simps) (simp add: truthy_def)
          show ?thesis
          proof (cases "parentId n")
            case None
            then have "getAncestorsLoop nodes (acc @ [n]) (parentId n) = Some (acc @ [n])"
              by (subst getAncestorsLoop.simps) (simp add: truthy_def)
            then show ?thesis using unf n None by auto
          next
            case (Some q)
            then have "(p, q) \<in> parentLinks nodes" using n by (auto simp: parentLinks_def)
            then have "(q, p) \<in> (parentLinks nodes)\<inverse>" by simp
            from 1 [OF this] obtain ch where
              "getAncestorsLoop nodes (acc @ [n]) (Some q) = Some ((acc @ [n]) @ ch)"
              "[] \<notin> node_id ` set nodes \<longrightarrow> isParentChain nodes (Some q) ch" by blast
            then show ?thesis using unf n Some by auto
          qed
        qed
      qed
    qed
  qed
  then show ?thesis using Some by blast
qed

lemma parent_chain_set:
  assumes d: "distinct (map node_id nodes)"
  shows "isParentChain nodes cur ch \<Longrightarrow>
         set ch = {n \<in> set nodes. \<exists>p. cur = Some p \<and> (p, node_id n) \<in> (parentLinks nodes)\<^sup>*}"
proof (induction ch arbitrary: cur)
  case Nil
  have "False" if "n \<in> set nodes" "cur = Some p" "(p, node_id n) \<in> (parentLinks nodes)\<^sup>*" for n p
    using that(3)
  proof (cases rule: converse_rtranclE)
    case base
    then show ?thesis using Nil that by auto
  next
    case (step z)
    then obtain m where "m \<in> set nodes" "node_id m = p" by (auto simp: parentLinks_def)
    then show ?thesis using Nil that by auto
  qed
  then show ?case by auto
next
  case (Cons m rest)
  then have m: "m \<in> set nodes" "cur = Some (node_id m)" and ch: "isParentChain nodes (parentId m) rest"
    by simp_all
  have ih: "set rest = {n \<in> set nodes. \<exists>p. parentId m = Some p \<and> (p, node_id n) \<in> (parentLinks nodes)\<^sup>*}"
    by (rule Cons.IH [OF ch])
  have "inj_on node_id (set nodes)" using d by (simp add: distinct_map)
  then have uniq: "n = m" if "n \<in> set nodes" "node_id n = node_id m" for n
    using that m(1) by (auto dest: inj_onD)
  show ?case
  proof (rule set_eqI)
    fix n
    show "n \<in> set (m # rest)
          \<longleftrightarrow> n \<in> {n \<in> set nodes. \<exists>p. cur = Some p \<and> (p, node_id n) \<in> (parentLinks nodes)\<^sup>*}"
    proof
      assume "n \<in> set (m # rest)"
      then consider "n = m" | "n \<in> set rest" by auto
      then show "n \<in> {n \<in> set nodes. \<exists>p. cur = Some p \<and> (p, node_id n) \<in> (parentLinks nodes)\<^sup>*}"
      proof cases
        case 1
        then show ?thesis using m by auto
      next
        case 2
        with ih obtain q where q: "n \<in> set nodes" "parentId m = Some q"
          "(q, node_id n) \<in> (parentLinks nodes)\<^sup>*" by auto
        then have "(node_id m, q) \<in> parentLinks nodes" using m by (auto simp: parentLinks_def)
        then show ?thesis using q m by (auto intro: converse_rtrancl_into_rtrancl)
      qed
    next
      assume "n \<in> {n \<in> set nodes. \<exists>p. cur = Some p \<and> (p, node_id n) \<in> (parentLinks nodes)\<^sup>*}"
      then have n: "n \<in> set nodes" "(node_id m, node_id n) \<in> (parentLinks nodes)\<^sup>*"
        using m by auto
      from n(2) show "n \<in> set (m # rest)"
      proof (cases rule: converse_rtranclE)
        case base
        then show ?thesis using uniq n(1) by auto
      next
        case (step z)
        then obtain m' where "m' \<in> set nodes" "node_id m' = node_id m" "parentId m' = Some z"
          by (auto simp: parentLinks_def)
        then have "parentId m = Some z" using uniq by blast
        then show ?thesis using ih n(1) step by auto
      qed
    qed
  qed
qed

lemma parentOf_link:
  assumes d: "distinct (map node_id nodes)"
  shows "(i, z) \<in> parentLinks nodes \<longleftrightarrow> parentOf nodes i = Some z"
proof
  assume "(i, z) \<in> parentLinks nodes"
  then obtain m where m: "m \<in> set nodes" "node_id m = i" "parentId m = Some z"
    by (auto simp: parentLinks_def)
  then obtain n where f: "find (\<lambda>node. node_id node = i) nodes = Some n"
    by (cases "find (\<lambda>node. node_id node = i) nodes") (auto simp: find_None_iff)
  then have "n \<in> set nodes" "node_id n = i" by (auto simp: find_Some_iff)
  moreover have "inj_on node_id (set nodes)" using d by (simp add: distinct_map)
  ultimately have "n = m" using m by (auto dest: inj_onD)
  then show "parentOf nodes i = Some z" using f m by (simp add: parentOf_def)
next
  assume "parentOf nodes i = Some z"
  then obtain n where "find (\<lambda>node. node_id node = i) nodes = Some n" "parentId n = Some z"
    by (auto simp: parentOf_def split: option.splits)
  then show "(i, z) \<in> parentLinks nodes"
    by (auto simp: find_Some_iff parentLinks_def)
qed

lemma getAncestors_exact:
  assumes ac: "acyclic (parentLinks nodes)" and d: "distinct (map node_id nodes)"
    and ne: "[] \<notin> node_id ` set nodes"
  shows "\<exists>r. getAncestors nodes (Some i) = Some r
           \<and> isParentChain nodes (parentOf nodes i) r
           \<and> set r = {n \<in> set nodes. (i, node_id n) \<in> (parentLinks nodes)\<^sup>+}
           \<and> (\<forall>n \<in> set r. node_id n \<noteq> i)"
proof -
  have wf: "wf ((parentLinks nodes)\<inverse>)"
    using finite_parentLinks ac by (rule finite_acyclic_wf_converse)
  from getAncestorsLoop_chain [OF wf, of "[]" "parentOf nodes i"] ne
  obtain r where r: "getAncestors nodes (Some i) = Some r" "isParentChain nodes (parentOf nodes i) r"
    by (auto simp: getAncestors_def parentOf_def)
  have "set r = {n \<in> set nodes. \<exists>p. parentOf nodes i = Some p \<and> (p, node_id n) \<in> (parentLinks nodes)\<^sup>*}"
    by (rule parent_chain_set [OF d r(2)])
  also have "\<dots> = {n \<in> set nodes. (i, node_id n) \<in> (parentLinks nodes)\<^sup>+}"
  proof -
    have "(\<exists>p. parentOf nodes i = Some p \<and> (p, x) \<in> (parentLinks nodes)\<^sup>*)
          \<longleftrightarrow> (i, x) \<in> (parentLinks nodes)\<^sup>+" for x
    proof
      assume "\<exists>p. parentOf nodes i = Some p \<and> (p, x) \<in> (parentLinks nodes)\<^sup>*"
      then obtain p where "(i, p) \<in> parentLinks nodes" "(p, x) \<in> (parentLinks nodes)\<^sup>*"
        using parentOf_link [OF d] by blast
      then show "(i, x) \<in> (parentLinks nodes)\<^sup>+" by (rule rtrancl_into_trancl2)
    next
      assume "(i, x) \<in> (parentLinks nodes)\<^sup>+"
      from tranclD [OF this] obtain z where "(i, z) \<in> parentLinks nodes"
        "(z, x) \<in> (parentLinks nodes)\<^sup>*" by blast
      then show "\<exists>p. parentOf nodes i = Some p \<and> (p, x) \<in> (parentLinks nodes)\<^sup>*"
        using parentOf_link [OF d] by blast
    qed
    then show ?thesis by simp
  qed
  finally have s: "set r = {n \<in> set nodes. (i, node_id n) \<in> (parentLinks nodes)\<^sup>+}" .
  have "\<forall>n \<in> set r. node_id n \<noteq> i"
    using s ac by (auto simp: acyclic_def)
  with r s show ?thesis by blast
qed

lemma openBelow_empty: "openBelow nodes {} = {}"
proof -
  have "n \<in> openBelow nodes {} \<Longrightarrow> False" for n
    by (induction rule: openBelow.induct) auto
  then show ?thesis by auto
qed

lemma openBelow_unfold:
  "openBelow nodes S
     = {n \<in> set nodes. contextOpen n \<and> (\<exists>m \<in> S. parentId n = Some (node_id m))}
       \<union> openBelow nodes {n \<in> set nodes. contextOpen n \<and> (\<exists>m \<in> S. parentId n = Some (node_id m))}"
  (is "_ = ?N \<union> openBelow nodes ?N")
proof (rule set_eqI, rule iffI)
  fix n
  assume "n \<in> openBelow nodes S"
  then show "n \<in> ?N \<union> openBelow nodes ?N"
  proof (induction rule: openBelow.induct)
    case (below_child m n)
    then show ?case by auto
  next
    case (below_step m n)
    then show ?case by (auto intro: openBelow.intros)
  qed
next
  fix n
  assume "n \<in> ?N \<union> openBelow nodes ?N"
  then consider "n \<in> ?N" | "n \<in> openBelow nodes ?N" by auto
  then show "n \<in> openBelow nodes S"
  proof cases
    case 1
    then show ?thesis by (auto intro: openBelow.below_child)
  next
    case 2
    then show ?thesis
    proof (induction rule: openBelow.induct)
      case (below_child m n)
      then have "m \<in> openBelow nodes S" by (auto intro: openBelow.below_child)
      then show ?case using below_child by (auto intro: openBelow.below_step)
    next
      case (below_step m n)
      then show ?case by (auto intro: openBelow.below_step)
    qed
  qed
qed

lemma openDescendants_below:
  "openDescendants nodes ident
     = {n \<in> set nodes. parentIs n ident \<and> contextOpen n}
       \<union> openBelow nodes {n \<in> set nodes. parentIs n ident \<and> contextOpen n}"
  (is "_ = ?A \<union> openBelow nodes ?A")
proof (rule set_eqI, rule iffI)
  fix n
  assume "n \<in> openDescendants nodes ident"
  then show "n \<in> ?A \<union> openBelow nodes ?A"
  proof (induction rule: openDescendants.induct)
    case (child n)
    then show ?case by auto
  next
    case (step m n)
    then show ?case by (auto intro: openBelow.intros)
  qed
next
  fix n
  assume "n \<in> ?A \<union> openBelow nodes ?A"
  then consider "n \<in> ?A" | "n \<in> openBelow nodes ?A" by auto
  then show "n \<in> openDescendants nodes ident"
  proof cases
    case 1
    then show ?thesis by (auto intro: openDescendants.child)
  next
    case 2
    then show ?thesis
    proof (induction rule: openBelow.induct)
      case (below_child m n)
      then have "m \<in> openDescendants nodes ident" by (auto intro: openDescendants.child)
      then show ?case using below_child by (auto intro: openDescendants.step)
    next
      case (below_step m n)
      then show ?case by (auto intro: openDescendants.step)
    qed
  qed
qed

lemma set_nextChildren:
  "set (filter (\<lambda>node. list_ex (\<lambda>n. parentId node = Some (node_id n) \<and> contextOpen node) cur) nodes)
     = {n \<in> set nodes. contextOpen n \<and> (\<exists>m \<in> set cur. parentId n = Some (node_id m))}"
  by (auto simp: list_ex_iff)

lemma getChildrenLoop_total:
  assumes wf: "wf (parentLinks nodes)"
  shows "\<exists>r. getChildrenLoop nodes acc cur = Some r \<and> set r = set acc \<union> openBelow nodes (set cur)"
proof -
  let ?rel = "inv_image (max_ext (parentLinks nodes)) (\<lambda>c. node_id ` set c)"
  have wfr: "wf ?rel" using wf by (intro wf_inv_image max_ext_wf)
  have "\<forall>acc. \<exists>r. getChildrenLoop nodes acc cur = Some r
            \<and> set r = set acc \<union> openBelow nodes (set cur)"
  proof (induction cur rule: wf_induct_rule [OF wfr])
    case (1 cur)
    let ?next = "filter (\<lambda>node. list_ex (\<lambda>n. parentId node = Some (node_id n) \<and> contextOpen node) cur) nodes"
    show ?case
    proof (cases "cur = []")
      case True
      then show ?thesis
        by (subst getChildrenLoop.simps) (simp add: openBelow_empty)
    next
      case False
      have "\<exists>y \<in> node_id ` set cur. (x, y) \<in> parentLinks nodes" if "x \<in> node_id ` set ?next" for x
        using that by (auto simp: list_ex_iff parentLinks_def)
      then have "(node_id ` set ?next, node_id ` set cur) \<in> max_ext (parentLinks nodes)"
        using False by (intro max_extI) auto
      then have lt: "(?next, cur) \<in> ?rel" by simp
      show ?thesis
      proof
        fix acc
        from 1 [OF lt] obtain r where
          r: "getChildrenLoop nodes (acc @ ?next) ?next = Some r"
             "set r = set (acc @ ?next) \<union> openBelow nodes (set ?next)" by blast
        have "getChildrenLoop nodes acc cur = getChildrenLoop nodes (acc @ ?next) ?next"
          using False by (subst getChildrenLoop.simps) (simp add: Let_def)
        moreover have "set (acc @ ?next) \<union> openBelow nodes (set ?next) = set acc \<union> openBelow nodes (set cur)"
          using openBelow_unfold [of nodes "set cur"] set_nextChildren [of cur nodes] by auto
        ultimately show "\<exists>r. getChildrenLoop nodes acc cur = Some r
            \<and> set r = set acc \<union> openBelow nodes (set cur)"
          using r by auto
      qed
    qed
  qed
  then show ?thesis by blast
qed

lemma openDescendants_link:
  "n \<in> openDescendants nodes (Some i) \<Longrightarrow> (node_id n, i) \<in> (parentLinks nodes)\<^sup>+"
proof (induction rule: openDescendants.induct)
  case (child n)
  then show ?case by (auto simp: parentIs_def parentLinks_def)
next
  case (step m n)
  then have "(node_id n, node_id m) \<in> parentLinks nodes" by (auto simp: parentLinks_def)
  then show ?case using step.IH by (rule trancl_into_trancl2)
qed

lemma getChildren_exact:
  assumes ac: "acyclic (parentLinks nodes)"
  shows "\<exists>r. getChildren nodes ident = Some r \<and> set r = openDescendants nodes ident
           \<and> (\<forall>n \<in> set r. Some (node_id n) \<noteq> ident)"
proof -
  have wf: "wf (parentLinks nodes)"
    using finite_parentLinks ac by (rule finite_acyclic_wf)
  let ?all = "filter (\<lambda>node. parentIs node ident \<and> contextOpen node) nodes"
  from getChildrenLoop_total [OF wf, of ?all ?all] obtain r where
    r: "getChildrenLoop nodes ?all ?all = Some r" "set r = set ?all \<union> openBelow nodes (set ?all)"
    by blast
  have s: "set r = openDescendants nodes ident"
    using r(2) openDescendants_below [of nodes ident] by simp
  have "Some (node_id n) \<noteq> ident" if "n \<in> set r" for n
  proof
    assume "Some (node_id n) = ident"
    then have "(node_id n, node_id n) \<in> (parentLinks nodes)\<^sup>+"
      using openDescendants_link [of n nodes "node_id n"] that s by auto
    then show False using ac by (auto simp: acyclic_def)
  qed
  then show ?thesis using r(1) s by (auto simp: getChildren_def Let_def)
qed

lemma getAncestors_total:
  assumes "acyclic (parentLinks nodes)"
  shows "\<exists>r. getAncestors nodes ident = Some r"
proof -
  have wf: "wf ((parentLinks nodes)\<inverse>)"
    using finite_parentLinks assms by (rule finite_acyclic_wf_converse)
  show ?thesis
    unfolding getAncestors_def using getAncestorsLoop_chain [OF wf, of "[]"] by auto
qed

lemma getAncestorsLoop_cycle:
  assumes "getAncestorsLoop nodes acc cur = Some r"
  shows "\<not> (nodes = cycleNodes \<and> (cur = Some ''a'' \<or> cur = Some ''b''))"
proof (rule getAncestorsLoop.raw_induct
    [where P = "\<lambda>ns ac c y. \<not> (ns = cycleNodes \<and> (c = Some ''a'' \<or> c = Some ''b''))", OF _ assms])
  fix f and ns ac y :: "floatingNode list" and c :: "string option"
  assume ih: "\<And>ns' ac' c' y'. f ns' ac' c' = Some y'
                \<Longrightarrow> \<not> (ns' = cycleNodes \<and> (c' = Some ''a'' \<or> c' = Some ''b''))"
    and body: "(if truthy c
                then let currentNode = find (\<lambda>node. Some (node_id node) = c) ns
                     in f ns (case currentNode of None \<Rightarrow> ac | Some n \<Rightarrow> ac @ [n])
                          (case currentNode of None \<Rightarrow> None | Some n \<Rightarrow> parentId n)
                else Some ac) = Some y"
  show "\<not> (ns = cycleNodes \<and> (c = Some ''a'' \<or> c = Some ''b''))"
  proof
    assume h: "ns = cycleNodes \<and> (c = Some ''a'' \<or> c = Some ''b'')"
    then consider "c = Some ''a''" | "c = Some ''b''" by blast
    then show False
    proof cases
      case 1
      with body h have "f cycleNodes (ac @ [chainNode ''a'' (Some ''b'') True]) (Some ''b'') = Some y"
        by (simp add: cycleNodes_def chainNode_def truthy_def)
      from ih [OF this] show False by simp
    next
      case 2
      with body h have "f cycleNodes (ac @ [chainNode ''b'' (Some ''a'') True]) (Some ''a'') = Some y"
        by (simp add: cycleNodes_def chainNode_def truthy_def)
      from ih [OF this] show False by simp
    qed
  qed
qed

lemma getChildrenLoop_cycle:
  assumes "getChildrenLoop nodes acc cur = Some r"
  shows "\<not> (nodes = cycleNodes \<and> (cur = [chainNode ''a'' (Some ''b'') True]
                                    \<or> cur = [chainNode ''b'' (Some ''a'') True]))"
proof (rule getChildrenLoop.raw_induct
    [where P = "\<lambda>ns ac c y. \<not> (ns = cycleNodes \<and> (c = [chainNode ''a'' (Some ''b'') True]
                                    \<or> c = [chainNode ''b'' (Some ''a'') True]))", OF _ assms])
  fix f and ns ac c y :: "floatingNode list"
  assume ih: "\<And>ns' ac' c' y'. f ns' ac' c' = Some y'
                \<Longrightarrow> \<not> (ns' = cycleNodes \<and> (c' = [chainNode ''a'' (Some ''b'') True]
                                    \<or> c' = [chainNode ''b'' (Some ''a'') True]))"
    and body: "(if c \<noteq> []
                then let nextChildren =
                           filter (\<lambda>node. list_ex (\<lambda>n. parentId node = Some (node_id n) \<and> contextOpen node) c) ns
                     in f ns (ac @ nextChildren) nextChildren
                else Some ac) = Some y"
  show "\<not> (ns = cycleNodes \<and> (c = [chainNode ''a'' (Some ''b'') True]
                                    \<or> c = [chainNode ''b'' (Some ''a'') True]))"
  proof
    assume h: "ns = cycleNodes \<and> (c = [chainNode ''a'' (Some ''b'') True]
                                    \<or> c = [chainNode ''b'' (Some ''a'') True])"
    then consider "c = [chainNode ''a'' (Some ''b'') True]" | "c = [chainNode ''b'' (Some ''a'') True]"
      by blast
    then show False
    proof cases
      case 1
      with body h have "f cycleNodes (ac @ [chainNode ''b'' (Some ''a'') True])
                          [chainNode ''b'' (Some ''a'') True] = Some y"
        by (simp add: cycleNodes_def chainNode_def contextOpen_def Let_def)
      from ih [OF this] show False by simp
    next
      case 2
      with body h have "f cycleNodes (ac @ [chainNode ''a'' (Some ''b'') True])
                          [chainNode ''a'' (Some ''b'') True] = Some y"
        by (simp add: cycleNodes_def chainNode_def contextOpen_def Let_def)
      from ih [OF this] show False by simp
    qed
  qed
qed

lemma cycle_diverges:
  "getAncestors cycleNodes (Some ''a'') = None" "getChildren cycleNodes (Some ''a'') = None"
proof -
  have "getAncestorsLoop cycleNodes [] (Some ''b'') = None"
    using getAncestorsLoop_cycle [of cycleNodes "[]" "Some ''b''"] by (metis not_Some_eq)
  then show "getAncestors cycleNodes (Some ''a'') = None"
    by (simp add: getAncestors_def cycleNodes_def chainNode_def)
  have "getChildrenLoop cycleNodes [chainNode ''b'' (Some ''a'') True] [chainNode ''b'' (Some ''a'') True] = None"
    using getChildrenLoop_cycle [of cycleNodes "[chainNode ''b'' (Some ''a'') True]" "[chainNode ''b'' (Some ''a'') True]"]
    by (metis not_Some_eq)
  then show "getChildren cycleNodes (Some ''a'') = None"
    by (simp add: getChildren_def cycleNodes_def chainNode_def parentIs_def contextOpen_def)
qed

lemma getAncestorsLoop_on_cycle:
  assumes d: "distinct (map node_id nodes)" and ne: "[] \<notin> node_id ` set nodes"
    and run: "getAncestorsLoop ns acc cur = Some r"
  shows "\<not> (ns = nodes \<and> (\<exists>p. cur = Some p \<and> (p, p) \<in> (parentLinks nodes)\<^sup>+))"
proof (rule getAncestorsLoop.raw_induct
    [where P = "\<lambda>ns ac c y. \<not> (ns = nodes \<and> (\<exists>p. c = Some p \<and> (p, p) \<in> (parentLinks nodes)\<^sup>+))",
      OF _ run])
  fix f and ns' ac y :: "floatingNode list" and c :: "string option"
  assume ih: "\<And>ns'' ac' c' y'. f ns'' ac' c' = Some y'
                \<Longrightarrow> \<not> (ns'' = nodes \<and> (\<exists>p. c' = Some p \<and> (p, p) \<in> (parentLinks nodes)\<^sup>+))"
    and body: "(if truthy c
                then let currentNode = find (\<lambda>node. Some (node_id node) = c) ns'
                     in f ns' (case currentNode of None \<Rightarrow> ac | Some n \<Rightarrow> ac @ [n])
                          (case currentNode of None \<Rightarrow> None | Some n \<Rightarrow> parentId n)
                else Some ac) = Some y"
  show "\<not> (ns' = nodes \<and> (\<exists>p. c = Some p \<and> (p, p) \<in> (parentLinks nodes)\<^sup>+))"
  proof
    assume "ns' = nodes \<and> (\<exists>p. c = Some p \<and> (p, p) \<in> (parentLinks nodes)\<^sup>+)"
    then obtain p where ns: "ns' = nodes" and c: "c = Some p"
      and cyc: "(p, p) \<in> (parentLinks nodes)\<^sup>+" by blast
    from tranclD [OF cyc] obtain z where pz: "(p, z) \<in> parentLinks nodes"
      and zp: "(z, p) \<in> (parentLinks nodes)\<^sup>*" by blast
    from pz obtain m where m: "m \<in> set nodes" "node_id m = p" "parentId m = Some z"
      by (auto simp: parentLinks_def)
    then have "p \<noteq> []" using ne by (auto simp: image_iff)
    then have t: "truthy c" using c by (simp add: truthy_def)
    obtain n where f: "find (\<lambda>node. Some (node_id node) = Some p) nodes = Some n"
      using m by (cases "find (\<lambda>node. Some (node_id node) = Some p) nodes") (auto simp: find_None_iff)
    then have "n \<in> set nodes" "node_id n = p" using find_node by blast+
    moreover have "inj_on node_id (set nodes)" using d by (simp add: distinct_map)
    ultimately have "n = m" using m by (auto dest: inj_onD)
    with body t f ns c m have "f nodes (ac @ [m]) (Some z) = Some y" by simp
    from ih [OF this] have "(z, z) \<notin> (parentLinks nodes)\<^sup>+" by simp
    moreover have "(z, z) \<in> (parentLinks nodes)\<^sup>+"
      using zp pz by (rule rtrancl_into_trancl1)
    ultimately show False by contradiction
  qed
qed

lemma getAncestors_on_cycle:
  assumes d: "distinct (map node_id nodes)" and ne: "[] \<notin> node_id ` set nodes"
    and cyc: "(p, p) \<in> (parentLinks nodes)\<^sup>+"
  shows "getAncestors nodes (Some p) = None"
proof -
  from tranclD [OF cyc] obtain z where pz: "(p, z) \<in> parentLinks nodes"
    and zp: "(z, p) \<in> (parentLinks nodes)\<^sup>*" by blast
  have zz: "(z, z) \<in> (parentLinks nodes)\<^sup>+" using zp pz by (rule rtrancl_into_trancl1)
  have "parentOf nodes p = Some z" using parentOf_link [OF d] pz by blast
  then have "getAncestors nodes (Some p) = getAncestorsLoop nodes [] (Some z)"
    by (simp add: getAncestors_def parentOf_def)
  moreover have "getAncestorsLoop nodes [] (Some z) = None"
    using getAncestorsLoop_on_cycle [OF d ne, of nodes "[]" "Some z"] zz
    by (cases "getAncestorsLoop nodes [] (Some z)") auto
  ultimately show ?thesis by simp
qed

text \<open>
  Claim C10, amended. For every node list whose parent links are acyclic (no node is its
  own transitive ancestor), and every id, \<open>getChildren\<close> and \<open>getAncestors\<close> return. The
  loops have no set of visited nodes, and a cycle can keep them from returning: when the
  ids are pairwise distinct and not empty and the parent links are not acyclic,
  \<open>getAncestors\<close> does not return for some id; and on the two-node cycle of open nodes
  neither of the two functions returns.
\<close>

theorem tree_queries_terminate:
  "(acyclic (parentLinks nodes) \<longrightarrow>
      (\<exists>r. getChildren nodes ident = Some r) \<and> (\<exists>r. getAncestors nodes ident = Some r))
   \<and> (distinct (map node_id nodes) \<and> [] \<notin> node_id ` set nodes \<and> \<not> acyclic (parentLinks nodes) \<longrightarrow>
      (\<exists>i. getAncestors nodes (Some i) = None))
   \<and> \<not> acyclic (parentLinks cycleNodes)
   \<and> getChildren cycleNodes (Some ''a'') = None
   \<and> getAncestors cycleNodes (Some ''a'') = None"
proof -
  have "(''a'', ''a'') \<in> (parentLinks cycleNodes)\<^sup>+"
  proof -
    have "(''a'', ''b'') \<in> parentLinks cycleNodes" "(''b'', ''a'') \<in> parentLinks cycleNodes"
      by (simp_all add: cycleNodes_def chainNode_def parentLinks_Cons parentLinks_Nil)
    then show ?thesis by (rule trancl_into_trancl2 [OF _ r_into_trancl])
  qed
  then have c: "\<not> acyclic (parentLinks cycleNodes)" by (auto simp: acyclic_def)
  have n: "\<exists>i. getAncestors nodes (Some i) = None"
    if "distinct (map node_id nodes)" "[] \<notin> node_id ` set nodes" "\<not> acyclic (parentLinks nodes)"
  proof -
    from that(3) obtain p where "(p, p) \<in> (parentLinks nodes)\<^sup>+" by (auto simp: acyclic_def)
    from getAncestors_on_cycle [OF that(1) that(2) this] show ?thesis ..
  qed
  show ?thesis
    using getChildren_exact [of nodes ident] getAncestors_total [of nodes ident] cycle_diverges c n
    by blast
qed

lemma chain_links:
  "parentLinks chainNodes = {(''b'', ''a''), (''c'', ''b''), (''d'', ''c'')}"
  by (simp add: chainNodes_def chainNode_def parentLinks_Cons parentLinks_Nil)

lemma chain_acyclic: "acyclic (parentLinks chainNodes)"
proof (rule acyclic_by_rank)
  fix c p
  assume "(c, p) \<in> parentLinks chainNodes"
  then show "(if p = ''a'' then 0 else if p = ''b'' then 1 else if p = ''c'' then 2 else 3 :: nat)
           < (if c = ''a'' then 0 else if c = ''b'' then 1 else if c = ''c'' then 2 else 3)"
    by (auto simp: chain_links)
qed

theorem tree_queries_terminate_witness:
  "acyclic (parentLinks chainNodes)
   \<and> (\<exists>r. getChildren chainNodes (Some ''a'') = Some r)
   \<and> (\<exists>r. getAncestors chainNodes (Some ''d'') = Some r)
   \<and> distinct (map node_id cycleNodes) \<and> [] \<notin> node_id ` set cycleNodes
   \<and> (\<exists>i. getAncestors cycleNodes (Some i) = None)"
proof -
  have d: "distinct (map node_id cycleNodes)" "[] \<notin> node_id ` set cycleNodes"
    by (simp_all add: cycleNodes_def chainNode_def)
  show ?thesis
    using tree_queries_terminate [of chainNodes "Some ''a''"]
      tree_queries_terminate [of chainNodes "Some ''d''"]
      tree_queries_terminate [of cycleNodes None] chain_acyclic d
    by blast
qed

text \<open>
  Claim C10 as stated fails in its converse: acyclicity is not necessary for
  \<open>getChildren\<close> to return. On the two-node cycle whose nodes are both closed the parent
  links are not acyclic, and \<open>getChildren\<close> returns the empty list for every id, since
  it follows the links of open nodes only.
\<close>

theorem closed_cycle_counterexample:
  "\<not> acyclic (parentLinks closedCycleNodes)
   \<and> (\<forall>ident. getChildren closedCycleNodes ident = Some [])
   \<and> getChildren closedCycleNodes (Some ''a'') = Some []
   \<and> getChildren closedCycleNodes (Some ''b'') = Some []"
proof -
  have "(''a'', ''a'') \<in> (parentLinks closedCycleNodes)\<^sup>+"
  proof -
    have "(''a'', ''b'') \<in> parentLinks closedCycleNodes"
      "(''b'', ''a'') \<in> parentLinks closedCycleNodes"
      by (simp_all add: closedCycleNodes_def chainNode_def parentLinks_Cons parentLinks_Nil)
    then show ?thesis by (rule trancl_into_trancl2 [OF _ r_into_trancl])
  qed
  then have c: "\<not> acyclic (parentLinks closedCycleNodes)" by (auto simp: acyclic_def)
  have g: "getChildren closedCycleNodes ident = Some []" for ident
    by (simp add: getChildren_def getChildrenLoop.simps closedCycleNodes_def chainNode_def
        parentIs_def contextOpen_def)
  show ?thesis using c g by simp
qed

text \<open>
  Claim C3. The ids of the nodes of a tree come from \<open>useId\<close>, so they are pairwise
  distinct and not the empty string. For every such node list whose parent links are
  acyclic, and every id: \<open>getChildren\<close> returns a list whose elements are exactly the
  open descendants of the id (the open children, and the open children of open
  descendants), and \<open>getAncestors\<close> returns the chain of parent nodes from the parent of
  the id up to a node without a parent in the list, whose elements are exactly the nodes
  reached from the id by one or more parent links. Neither list contains a node with the
  queried id.
\<close>

theorem tree_queries_exact:
  assumes "acyclic (parentLinks nodes)" and "distinct (map node_id nodes)"
    and "[] \<notin> node_id ` set nodes"
  shows "(\<exists>r. getChildren nodes ident = Some r \<and> set r = openDescendants nodes ident
             \<and> (\<forall>n \<in> set r. Some (node_id n) \<noteq> ident))
       \<and> (\<exists>r. getAncestors nodes (Some i) = Some r
             \<and> isParentChain nodes (parentOf nodes i) r
             \<and> set r = {n \<in> set nodes. (i, node_id n) \<in> (parentLinks nodes)\<^sup>+}
             \<and> (\<forall>n \<in> set r. node_id n \<noteq> i))"
  using getChildren_exact [OF assms(1)] getAncestors_exact [OF assms] by blast

text \<open>
  Why the ids are taken not to be empty: the loop test \<open>while (currentParentId)\<close> of
  \<open>getAncestors\<close> takes the parent id \<open>''\<close> for the end of the chain. No id made by
  \<open>useId\<close> is the empty string.
\<close>

lemma getAncestors_empty_id:
  "acyclic (parentLinks emptyIdNodes)
   \<and> distinct (map node_id emptyIdNodes)
   \<and> parentOf emptyIdNodes ''x'' = Some (node_id (chainNode [] None True))
   \<and> chainNode [] None True \<in> set emptyIdNodes
   \<and> getAncestors emptyIdNodes (Some ''x'') = Some []"
proof -
  have "parentLinks emptyIdNodes = {(''x'', [])}"
    by (simp add: emptyIdNodes_def chainNode_def parentLinks_Cons parentLinks_Nil)
  then have "acyclic (parentLinks emptyIdNodes)"
    by (intro acyclic_by_rank [where f = length]) simp
  moreover have "getAncestors emptyIdNodes (Some ''x'') = Some []"
    by (simp add: getAncestors_def getAncestorsLoop.simps emptyIdNodes_def chainNode_def truthy_def)
  ultimately show ?thesis
    by (simp add: emptyIdNodes_def chainNode_def parentOf_def)
qed

theorem tree_queries_exact_witness:
  "acyclic (parentLinks chainNodes) \<and> distinct (map node_id chainNodes)
   \<and> [] \<notin> node_id ` set chainNodes
   \<and> openDescendants chainNodes (Some ''a'')
       = {chainNode ''b'' (Some ''a'') True, chainNode ''c'' (Some ''b'') True}
   \<and> {n \<in> set chainNodes. (''d'', node_id n) \<in> (parentLinks chainNodes)\<^sup>+}
       = {chainNode ''c'' (Some ''b'') True, chainNode ''b'' (Some ''a'') True, chainNode ''a'' None True}"
proof -
  have d: "distinct (map node_id chainNodes)" "[] \<notin> node_id ` set chainNodes"
    by (simp_all add: chainNodes_def chainNode_def)
  have c: "getChildren chainNodes (Some ''a'')
       = Some [chainNode ''b'' (Some ''a'') True, chainNode ''c'' (Some ''b'') True]"
    by (simp add: getChildren_def getChildrenLoop.simps chainNodes_def chainNode_def parentIs_def
        contextOpen_def)
  have a: "getAncestors chainNodes (Some ''d'')
       = Some [chainNode ''c'' (Some ''b'') True, chainNode ''b'' (Some ''a'') True,
               chainNode ''a'' None True]"
    by (simp add: getAncestors_def getAncestorsLoop.simps chainNodes_def chainNode_def truthy_def)
  from tree_queries_exact [OF chain_acyclic d, of "Some ''a''" "''d''"] c a
  show ?thesis using chain_acyclic d by auto
qed

section \<open>Properties of list navigation\<close>

lemma find_forward_gt: "startingIndex < findNonDisabledIndex list ds startingIndex False"
proof (induction list ds startingIndex "False" rule: findNonDisabledIndex.induct)
  case (1 list ds s)
  show ?case
    using 1 by (subst findNonDisabledIndex.simps) (auto simp: Let_def)
qed

lemma find_backward_lt: "findNonDisabledIndex list ds startingIndex True < startingIndex"
proof (induction list ds startingIndex "True" rule: findNonDisabledIndex.induct)
  case (1 list ds s)
  show ?case
    using 1 by (subst findNonDisabledIndex.simps) (auto simp: Let_def)
qed

lemma find_in_bounds_enabled:
  "\<not> isIndexOutOfBounds list (findNonDisabledIndex list ds s dec) \<Longrightarrow>
   \<not> isDisabledAt list ds (findNonDisabledIndex list ds s dec)"
proof (induction list ds s dec rule: findNonDisabledIndex.induct)
  case (1 list ds s dec)
  show ?case
    using 1 by (subst findNonDisabledIndex.simps, subst (asm) (3) findNonDisabledIndex.simps)
      (auto simp: Let_def isIndexOutOfBounds_def split: if_splits)
qed

lemma find_forward_le:
  "s < m \<Longrightarrow> \<not> isDisabledAt list ds m \<Longrightarrow> findNonDisabledIndex list ds s False \<le> m"
proof (induction list ds s "False" rule: findNonDisabledIndex.induct)
  case (1 list ds s)
  show ?case
    using 1 by (subst findNonDisabledIndex.simps) (cases "s + 1 = m"; auto simp: Let_def)
qed

lemma find_backward_ge:
  "m < s \<Longrightarrow> \<not> isDisabledAt list ds m \<Longrightarrow> m \<le> findNonDisabledIndex list ds s True"
proof (induction list ds s "True" rule: findNonDisabledIndex.induct)
  case (1 list ds s)
  show ?case
    using 1 by (subst findNonDisabledIndex.simps) (cases "s - 1 = m"; auto simp: Let_def)
qed

lemma main_key_not_home_end:
  "isMainOrientationKey key ori \<Longrightarrow> key \<noteq> ''Home'' \<and> key \<noteq> ''End''"
  by (cases ori) (auto simp: isMainOrientationKey_def ARROW_UP_def ARROW_DOWN_def ARROW_LEFT_def ARROW_RIGHT_def)

lemma onKeyDown_main:
  assumes "isMainOrientationKey key (orientation p)"
    and "\<not> (nested p \<and> isCrossOrientationCloseKey key (orientation p) (rtl p))"
    and "\<not> (isOpen p \<and> \<not> virtual p \<and> currentTargetIsActive p)"
  shows "onKeyDown p key s =
           (s\<lparr>blockPointerLeaveRef := True, indexRef := nextMainIndex p key (indexRef s)\<rparr>,
            [StopEvent,
             Navigate (if isIndexOutOfBounds (listRef p) (nextMainIndex p key (indexRef s))
                       then None else Some (nextMainIndex p key (indexRef s)))])"
  using assms main_key_not_home_end [OF assms(1)]
  by (auto simp: onKeyDown_def Let_def)

lemma onKeyDown_reset:
  assumes "isMainOrientationKey key (orientation p)"
    and "\<not> (nested p \<and> isCrossOrientationCloseKey key (orientation p) (rtl p))"
    and "isOpen p \<and> \<not> virtual p \<and> currentTargetIsActive p"
  shows "onKeyDown p key s =
           (let i = (if isMainOrientationToEndKey key (orientation p) (rtl p)
                     then getMinIndex (listRef p) (disabledIndices p)
                     else getMaxIndex (listRef p) (disabledIndices p))
            in (s\<lparr>blockPointerLeaveRef := True, indexRef := i\<rparr>, [StopEvent, Navigate (Some i)]))"
  using assms main_key_not_home_end [OF assms(1)]
  by (auto simp: onKeyDown_def Let_def)

lemma grid_min:
  "length list = 49 \<Longrightarrow> getMinIndex list (Some [0, 1, 2, 5, 10, 15, 46, 47, 48]) = 3"
  by (simp add: getMinIndex_def findNonDisabledIndex.simps isDisabledAt_def)

lemma grid_max:
  "length list = 49 \<Longrightarrow> getMaxIndex list (Some [0, 1, 2, 5, 10, 15, 46, 47, 48]) = 45"
  by (simp add: getMaxIndex_def findNonDisabledIndex.simps isDisabledAt_def)

lemma grid_step:
  assumes cfg: "loop p" "\<not> allowEscape p" "disabledIndices p = Some gridDisabledIndices"
      "length (listRef p) = 49"
    and key: "isMainOrientationKey key (orientation p)"
      "isMainOrientationToEndKey key (orientation p) (rtl p)"
      "\<not> (nested p \<and> isCrossOrientationCloseKey key (orientation p) (rtl p))"
    and valid: "0 \<le> indexRef s" "indexRef s < 49" "indexRef s \<notin> set gridDisabledIndices"
  shows "\<exists>i. snd (onKeyDown p key s) = [StopEvent, Navigate (Some i)]
           \<and> indexRef (fst (onKeyDown p key s)) = i
           \<and> 0 \<le> i \<and> i < 49 \<and> i \<notin> set gridDisabledIndices
           \<and> (indexRef s = 45 \<longrightarrow> i = 3)"
proof -
  have mn: "getMinIndex (listRef p) (disabledIndices p) = 3"
    using cfg grid_min by (simp add: gridDisabledIndices_def)
  have mx: "getMaxIndex (listRef p) (disabledIndices p) = 45"
    using cfg grid_max by (simp add: gridDisabledIndices_def)
  show ?thesis
  proof (cases "isOpen p \<and> \<not> virtual p \<and> currentTargetIsActive p")
    case True
    then show ?thesis
      using onKeyDown_reset [OF key(1) key(3), of s] key(2) mn
      by (simp add: gridDisabledIndices_def)
  next
    case False
    let ?i = "nextMainIndex p key (indexRef s)"
    have step: "onKeyDown p key s =
        (s\<lparr>blockPointerLeaveRef := True, indexRef := ?i\<rparr>,
         [StopEvent, Navigate (if isIndexOutOfBounds (listRef p) ?i then None else Some ?i)])"
      using onKeyDown_main [OF key(1) key(3) False] .
    have good: "0 \<le> ?i \<and> ?i < 49 \<and> ?i \<notin> set gridDisabledIndices \<and> (indexRef s = 45 \<longrightarrow> ?i = 3)"
    proof (cases "indexRef s \<ge> 45")
      case True
      then have "?i = 3"
        using cfg key(2) mn mx by (simp add: nextMainIndex_def)
      then show ?thesis by (auto simp: gridDisabledIndices_def)
    next
      case lt: False
      let ?r = "findNonDisabledIndex (listRef p) (disabledIndices p) (indexRef s) False"
      have i: "?i = ?r"
        using cfg key(2) mn mx lt by (simp add: nextMainIndex_def)
      have "\<not> isDisabledAt (listRef p) (disabledIndices p) 45"
        using cfg by (simp add: isDisabledAt_def gridDisabledIndices_def)
      then have le: "?r \<le> 45"
        using find_forward_le [of "indexRef s" 45] lt by simp
      have gt: "indexRef s < ?r" by (rule find_forward_gt)
      then have inb: "\<not> isIndexOutOfBounds (listRef p) ?r"
        using le valid cfg by (simp add: isIndexOutOfBounds_def)
      from find_in_bounds_enabled [OF inb]
      have "?r \<notin> set gridDisabledIndices"
        using cfg by (simp add: isDisabledAt_def)
      then show ?thesis using i le gt valid lt by simp
    qed
    then have "\<not> isIndexOutOfBounds (listRef p) ?i"
      using cfg by (simp add: isIndexOutOfBounds_def)
    then show ?thesis using step good by simp
  qed
qed

text \<open>
  Claim C5. With \<open>loop\<close> set, \<open>allowEscape\<close> off, the disabled indices
  0, 1, 2, 5, 10, 15, 46, 47, 48 and a list of 49 items: after any number of presses of a
  forward main-orientation key, started at index 3, the next press reports and stores an
  index that is in bounds and not disabled. The first and the last non-disabled indices
  are 3 and 45, and a forward press at 45 moves the index to 3.
\<close>

theorem grid_forward_presses:
  assumes cfg: "loop p" "\<not> allowEscape p" "disabledIndices p = Some gridDisabledIndices"
      "length (listRef p) = 49"
    and key: "isMainOrientationKey key (orientation p)"
      "isMainOrientationToEndKey key (orientation p) (rtl p)"
      "\<not> (nested p \<and> isCrossOrientationCloseKey key (orientation p) (rtl p))"
  shows "(indexRef s = 3 \<longrightarrow>
            (let before = ((\<lambda>t. fst (onKeyDown p key t)) ^^ n) s;
                 after = fst (onKeyDown p key before)
             in snd (onKeyDown p key before) = [StopEvent, Navigate (Some (indexRef after))]
                \<and> \<not> isIndexOutOfBounds (listRef p) (indexRef after)
                \<and> indexRef after \<notin> set gridDisabledIndices))
       \<and> getMinIndex (listRef p) (disabledIndices p) = 3
       \<and> getMaxIndex (listRef p) (disabledIndices p) = 45
       \<and> (indexRef s = 45 \<longrightarrow>
            onKeyDown p key s =
              (s\<lparr>blockPointerLeaveRef := True, indexRef := 3\<rparr>, [StopEvent, Navigate (Some 3)]))"
proof -
  let ?press = "\<lambda>t. fst (onKeyDown p key t)"
  have inv: "indexRef s = 3 \<Longrightarrow>
      0 \<le> indexRef ((?press ^^ k) s) \<and> indexRef ((?press ^^ k) s) < 49
      \<and> indexRef ((?press ^^ k) s) \<notin> set gridDisabledIndices" for k
  proof (induction k)
    case 0
    then show ?case by (simp add: gridDisabledIndices_def)
  next
    case (Suc k)
    then show ?case
      using grid_step [OF cfg key, of "(?press ^^ k) s"] by auto
  qed
  have first: "indexRef s = 3 \<longrightarrow>
            (let before = (?press ^^ n) s;
                 after = fst (onKeyDown p key before)
             in snd (onKeyDown p key before) = [StopEvent, Navigate (Some (indexRef after))]
                \<and> \<not> isIndexOutOfBounds (listRef p) (indexRef after)
                \<and> indexRef after \<notin> set gridDisabledIndices)"
    using inv [of n] grid_step [OF cfg key, of "(?press ^^ n) s"] cfg(4)
    by (auto simp: Let_def isIndexOutOfBounds_def)
  have mn: "getMinIndex (listRef p) (disabledIndices p) = 3"
    using cfg grid_min by (simp add: gridDisabledIndices_def)
  have mx: "getMaxIndex (listRef p) (disabledIndices p) = 45"
    using cfg grid_max by (simp add: gridDisabledIndices_def)
  have last: "indexRef s = 45 \<longrightarrow>
            onKeyDown p key s =
              (s\<lparr>blockPointerLeaveRef := True, indexRef := 3\<rparr>, [StopEvent, Navigate (Some 3)])"
  proof (cases "isOpen p \<and> \<not> virtual p \<and> currentTargetIsActive p")
    case True
    then show ?thesis
      using onKeyDown_reset [OF key(1) key(3), of s] key(2) mn by simp
  next
    case False
    show ?thesis
      using onKeyDown_main [OF key(1) key(3) False, of s] cfg key(2) mn mx
      by (simp add: nextMainIndex_def isIndexOutOfBounds_def)
  qed
  show ?thesis using first mn mx last by blast
qed

text \<open>
  The grid of the visual test (horizontal, ArrowRight): from 3 to 4, from 4 over the
  disabled 5 to 6, and from 45 around to 3.
\<close>

theorem grid_forward_presses_witness:
  "snd (onKeyDown gridProps ARROW_RIGHT \<lparr>indexRef = 3, keyRef = None, blockPointerLeaveRef = False\<rparr>)
     = [StopEvent, Navigate (Some 4)]
   \<and> snd (onKeyDown gridProps ARROW_RIGHT \<lparr>indexRef = 4, keyRef = None, blockPointerLeaveRef = True\<rparr>)
     = [StopEvent, Navigate (Some 6)]
   \<and> snd (onKeyDown gridProps ARROW_RIGHT \<lparr>indexRef = 45, keyRef = None, blockPointerLeaveRef = False\<rparr>)
     = [StopEvent, Navigate (Some 3)]"
proof -
  have cfg: "loop gridProps" "\<not> allowEscape gridProps"
    "disabledIndices gridProps = Some gridDisabledIndices" "length (listRef gridProps) = 49"
    by (simp_all add: gridProps_def)
  have key: "isMainOrientationKey ARROW_RIGHT (orientation gridProps)"
    "isMainOrientationToEndKey ARROW_RIGHT (orientation gridProps) (rtl gridProps)"
    "\<not> (nested gridProps \<and> isCrossOrientationCloseKey ARROW_RIGHT (orientation gridProps) (rtl gridProps))"
    by (simp_all add: gridProps_def isMainOrientationKey_def isMainOrientationToEndKey_def)
  have fnd: "findNonDisabledIndex (listRef gridProps) (Some gridDisabledIndices) 3 False = 4"
     "findNonDisabledIndex (listRef gridProps) (Some gridDisabledIndices) 4 False = 6"
    using cfg(4)
    by (simp_all add: findNonDisabledIndex.simps isDisabledAt_def gridDisabledIndices_def)
  have a: "snd (onKeyDown gridProps ARROW_RIGHT \<lparr>indexRef = 3, keyRef = None, blockPointerLeaveRef = False\<rparr>)
     = [StopEvent, Navigate (Some (indexRef (fst (onKeyDown gridProps ARROW_RIGHT \<lparr>indexRef = 3, keyRef = None, blockPointerLeaveRef = False\<rparr>))))]"
    using grid_forward_presses [OF cfg key, of "\<lparr>indexRef = 3, keyRef = None, blockPointerLeaveRef = False\<rparr>" 0]
    by (simp add: Let_def)
  have b: "onKeyDown gridProps ARROW_RIGHT \<lparr>indexRef = 45, keyRef = None, blockPointerLeaveRef = False\<rparr>
     = (\<lparr>indexRef = 3, keyRef = None, blockPointerLeaveRef = True\<rparr>, [StopEvent, Navigate (Some 3)])"
    using grid_forward_presses [OF cfg key, of "\<lparr>indexRef = 45, keyRef = None, blockPointerLeaveRef = False\<rparr>" 0]
    by simp
  have mm: "getMinIndex (listRef gridProps) (disabledIndices gridProps) = 3"
      "getMaxIndex (listRef gridProps) (disabledIndices gridProps) = 45"
    using grid_forward_presses [OF cfg key, of "\<lparr>indexRef = 45, keyRef = None, blockPointerLeaveRef = False\<rparr>" 0]
    by simp_all
  have nopen: "\<not> (isOpen gridProps \<and> \<not> virtual gridProps \<and> currentTargetIsActive gridProps)"
    by (simp add: gridProps_def)
  have c: "indexRef (fst (onKeyDown gridProps ARROW_RIGHT \<lparr>indexRef = 3, keyRef = None, blockPointerLeaveRef = False\<rparr>)) = 4"
    using onKeyDown_main [OF key(1) key(3) nopen] cfg key(2) mm fnd
    by (simp add: nextMainIndex_def)
  have d: "snd (onKeyDown gridProps ARROW_RIGHT \<lparr>indexRef = 4, keyRef = None, blockPointerLeaveRef = True\<rparr>)
     = [StopEvent, Navigate (Some 6)]"
    using onKeyDown_main [OF key(1) key(3) nopen] cfg key(2) mm fnd
    by (simp add: nextMainIndex_def isIndexOutOfBounds_def)
  show ?thesis using a b c d by simp
qed

lemma escape_min_max:
  "getMinIndex (listRef (escapeProps v)) (disabledIndices (escapeProps v)) = 0"
  "getMaxIndex (listRef (escapeProps v)) (disabledIndices (escapeProps v)) = 2"
  by (simp_all add: escapeProps_def getMinIndex_def getMaxIndex_def findNonDisabledIndex.simps
      isDisabledAt_def)

text \<open>
  Claim C8 as stated fails. With \<open>loop\<close>, \<open>allowEscape\<close> and \<open>virtual\<close> all set, a
  forward press at the last index stores \<open>-1\<close> (not the length), a backward press at the
  first index stores the length (not \<open>-1\<close>); and with \<open>virtual\<close> off the forward press
  stores the sentinel all the same.
\<close>

theorem escape_sentinel_counterexample:
  "onKeyDown (escapeProps True) ARROW_DOWN \<lparr>indexRef = 2, keyRef = None, blockPointerLeaveRef = False\<rparr>
     = (\<lparr>indexRef = - 1, keyRef = None, blockPointerLeaveRef = True\<rparr>, [StopEvent, Navigate None])
   \<and> onKeyDown (escapeProps True) ARROW_UP \<lparr>indexRef = 0, keyRef = None, blockPointerLeaveRef = False\<rparr>
     = (\<lparr>indexRef = 3, keyRef = None, blockPointerLeaveRef = True\<rparr>, [StopEvent, Navigate None])
   \<and> onKeyDown (escapeProps False) ARROW_DOWN \<lparr>indexRef = 2, keyRef = None, blockPointerLeaveRef = False\<rparr>
     = (\<lparr>indexRef = - 1, keyRef = None, blockPointerLeaveRef = True\<rparr>, [StopEvent, Navigate None])"
proof -
  have k: "isMainOrientationKey ARROW_DOWN (orientation (escapeProps v))"
     "isMainOrientationKey ARROW_UP (orientation (escapeProps v))"
     "\<not> (nested (escapeProps v) \<and> isCrossOrientationCloseKey key (orientation (escapeProps v)) (rtl (escapeProps v)))"
     "\<not> (isOpen (escapeProps v) \<and> \<not> virtual (escapeProps v) \<and> currentTargetIsActive (escapeProps v))"
    for v key
    by (simp_all add: escapeProps_def isMainOrientationKey_def)
  have e: "isMainOrientationToEndKey ARROW_DOWN (orientation (escapeProps v)) (rtl (escapeProps v))"
     "\<not> isMainOrientationToEndKey ARROW_UP (orientation (escapeProps v)) (rtl (escapeProps v))"
     "loop (escapeProps v)" "allowEscape (escapeProps v)" "length (listRef (escapeProps v)) = 3"
    for v
    by (simp_all add: escapeProps_def isMainOrientationToEndKey_def ARROW_DOWN_def ARROW_UP_def)
  show ?thesis
    using escape_min_max e
    by (simp add: onKeyDown_main [OF k(1) k(3) k(4)] onKeyDown_main [OF k(2) k(3) k(4)]
        nextMainIndex_def isIndexOutOfBounds_def)
qed

text \<open>
  Claim C8, amended. For a main-orientation key press that runs the navigation branch
  (not closed as a nested cross-orientation key, not the reset of a focused floating
  element), the handler reports null for an index out of bounds and the index itself
  otherwise, and at the boundary it stores:
  forward with the current index at or past the last non-disabled index: with \<open>loop\<close>,
  \<open>-1\<close> when \<open>allowEscape\<close> is set and the current index is not the length, the first
  non-disabled index otherwise; without \<open>loop\<close>, the last non-disabled index;
  backward with the current index at or before the first non-disabled index: with
  \<open>loop\<close>, the length when \<open>allowEscape\<close> is set and the current index is not \<open>-1\<close>,
  the last non-disabled index otherwise; without \<open>loop\<close>, the first non-disabled index.
  The option \<open>virtual\<close> plays no part.
\<close>

theorem boundary_press:
  assumes "isMainOrientationKey key (orientation p)"
    and "\<not> (nested p \<and> isCrossOrientationCloseKey key (orientation p) (rtl p))"
    and "\<not> (isOpen p \<and> \<not> virtual p \<and> currentTargetIsActive p)"
  shows "snd (onKeyDown p key s) =
           [StopEvent,
            Navigate (if isIndexOutOfBounds (listRef p) (indexRef (fst (onKeyDown p key s)))
                      then None else Some (indexRef (fst (onKeyDown p key s))))]
       \<and> (isMainOrientationToEndKey key (orientation p) (rtl p)
            \<and> indexRef s \<ge> getMaxIndex (listRef p) (disabledIndices p) \<longrightarrow>
          indexRef (fst (onKeyDown p key s)) =
            (if loop p
             then (if allowEscape p \<and> indexRef s \<noteq> int (length (listRef p))
                   then - 1 else getMinIndex (listRef p) (disabledIndices p))
             else getMaxIndex (listRef p) (disabledIndices p)))
       \<and> (\<not> isMainOrientationToEndKey key (orientation p) (rtl p)
            \<and> indexRef s \<le> getMinIndex (listRef p) (disabledIndices p) \<longrightarrow>
          indexRef (fst (onKeyDown p key s)) =
            (if loop p
             then (if allowEscape p \<and> indexRef s \<noteq> - 1
                   then int (length (listRef p)) else getMaxIndex (listRef p) (disabledIndices p))
             else getMinIndex (listRef p) (disabledIndices p)))"
proof -
  have fw: "indexRef s < findNonDisabledIndex (listRef p) (disabledIndices p) (indexRef s) False"
    by (rule find_forward_gt)
  have bw: "findNonDisabledIndex (listRef p) (disabledIndices p) (indexRef s) True < indexRef s"
    by (rule find_backward_lt)
  show ?thesis
    using fw bw
    by (simp add: onKeyDown_main [OF assms] Let_def nextMainIndex_def)
qed

theorem boundary_press_witness:
  "indexRef (fst (onKeyDown (escapeProps True\<lparr>allowEscape := False\<rparr>) ARROW_DOWN
       \<lparr>indexRef = 2, keyRef = None, blockPointerLeaveRef = False\<rparr>)) = 0
   \<and> snd (onKeyDown (escapeProps True\<lparr>allowEscape := False\<rparr>) ARROW_DOWN
       \<lparr>indexRef = 2, keyRef = None, blockPointerLeaveRef = False\<rparr>) = [StopEvent, Navigate (Some 0)]
   \<and> indexRef (fst (onKeyDown (escapeProps True\<lparr>loop := False\<rparr>) ARROW_DOWN
       \<lparr>indexRef = 2, keyRef = None, blockPointerLeaveRef = False\<rparr>)) = 2"
proof -
  let ?p = "escapeProps True\<lparr>allowEscape := False\<rparr>"
  let ?q = "escapeProps True\<lparr>loop := False\<rparr>"
  let ?s = "\<lparr>indexRef = 2, keyRef = None, blockPointerLeaveRef = False\<rparr>"
  have k: "isMainOrientationKey ARROW_DOWN (orientation ?p)"
     "\<not> (nested ?p \<and> isCrossOrientationCloseKey ARROW_DOWN (orientation ?p) (rtl ?p))"
     "\<not> (isOpen ?p \<and> \<not> virtual ?p \<and> currentTargetIsActive ?p)"
     "isMainOrientationKey ARROW_DOWN (orientation ?q)"
     "\<not> (nested ?q \<and> isCrossOrientationCloseKey ARROW_DOWN (orientation ?q) (rtl ?q))"
     "\<not> (isOpen ?q \<and> \<not> virtual ?q \<and> currentTargetIsActive ?q)"
    by (simp_all add: escapeProps_def isMainOrientationKey_def)
  have e: "isMainOrientationToEndKey ARROW_DOWN Vertical False"
    by (simp add: isMainOrientationToEndKey_def)
  have m: "getMinIndex (listRef (escapeProps True)) (Some []) = 0"
     "getMaxIndex (listRef (escapeProps True)) (Some []) = 2"
    using escape_min_max [of True] by (simp_all add: escapeProps_def)
  have a: "indexRef (fst (onKeyDown ?p ARROW_DOWN ?s)) = 0
      \<and> snd (onKeyDown ?p ARROW_DOWN ?s) = [StopEvent, Navigate (Some 0)]"
    using boundary_press [OF k(1) k(2) k(3), of ?s] e m
    by (simp add: escapeProps_def isIndexOutOfBounds_def)
  have b: "indexRef (fst (onKeyDown ?q ARROW_DOWN ?s)) = 2"
    using boundary_press [OF k(4) k(5) k(6), of ?s] e m
    by (simp add: escapeProps_def isIndexOutOfBounds_def)
  show ?thesis using a b by simp
qed

lemma reportable_find: "reportable p (findNonDisabledIndex (listRef p) (disabledIndices p) c dec)"
  using find_in_bounds_enabled [of "listRef p" "disabledIndices p" c dec]
  by (auto simp: reportable_def)

lemma reportable_min_max:
  "reportable p (getMinIndex (listRef p) (disabledIndices p))"
  "reportable p (getMaxIndex (listRef p) (disabledIndices p))"
  by (simp_all add: getMinIndex_def getMaxIndex_def reportable_find)

lemma reportable_sentinel: "reportable p (- 1)" "reportable p (int (length (listRef p)))"
  by (simp_all add: reportable_def isIndexOutOfBounds_def)

lemma reportable_nextMainIndex: "reportable p (nextMainIndex p key c)"
  by (simp add: nextMainIndex_def Let_def min_def max_def reportable_find reportable_min_max
      reportable_sentinel)

lemma onKeyDown_reports:
  "Navigate (Some i) \<in> set (snd (onKeyDown p key s)) \<Longrightarrow> reportable p i"
  using reportable_min_max [of p] reportable_nextMainIndex [of p key "indexRef s"]
  by (auto simp: onKeyDown_def Let_def split: if_splits)

lemma onKeyDown_main_index:
  "isMainOrientationKey key (orientation p) \<Longrightarrow> \<not> nested p \<Longrightarrow>
   reportable p (indexRef (fst (onKeyDown p key s)))"
  using reportable_min_max [of p] reportable_nextMainIndex [of p key "indexRef s"]
  by (auto simp: onKeyDown_def Let_def split: if_splits)

lemma referenceOnKeyDown_main:
  assumes "\<not> (virtual p \<and> isOpen p)" "\<not> nested p" "isMainOrientationKey key (orientation p)"
  shows "\<exists>s3. referenceOnKeyDown p key s =
           (if \<not> isOpen p \<and> openOnArrowKeyDown p then (s3, [StopEvent, OpenChange True])
            else (fst (onKeyDown p key s3),
                  [StopEvent] @ snd (onKeyDown p key s3)
                  @ (if isOpen p then [Navigate (Some (indexRef (fst (onKeyDown p key s3))))] else [])))"
proof -
  define s2 where "s2 = (if take 5 key = ''Arrow'' \<or> key = ''Enter'' \<or> key = '' '' \<or> key = []
       then s\<lparr>blockPointerLeaveRef := True, keyRef := Some key\<rparr>
       else s\<lparr>blockPointerLeaveRef := True\<rparr>)"
  define s3 where "s3 = (case selectedIndex p of Some i \<Rightarrow> s2\<lparr>indexRef := i\<rparr> | None \<Rightarrow> s2)"
  have "referenceOnKeyDown p key s =
           (if \<not> isOpen p \<and> openOnArrowKeyDown p then (s3, [StopEvent, OpenChange True])
            else (fst (onKeyDown p key s3),
                  [StopEvent] @ snd (onKeyDown p key s3)
                  @ (if isOpen p then [Navigate (Some (indexRef (fst (onKeyDown p key s3))))] else [])))"
    using assms unfolding referenceOnKeyDown_def Let_def s3_def s2_def
    by (simp add: case_prod_beta)
  then show ?thesis ..
qed

lemma referenceOnKeyDown_reports:
  assumes a: "Navigate (Some i) \<in> set (snd (referenceOnKeyDown p key s))"
  shows "reportable p i"
proof (cases "virtual p \<and> isOpen p")
  case True
  with a show ?thesis
    using onKeyDown_reports [of i p key "s\<lparr>blockPointerLeaveRef := True\<rparr>"]
    by (simp add: referenceOnKeyDown_def)
next
  case False
  show ?thesis
  proof (cases "nested p")
    case True
    with a False show ?thesis
      using reportable_min_max [of p]
      by (auto simp: referenceOnKeyDown_def Let_def split: if_splits)
  next
    case nn: False
    show ?thesis
    proof (cases "isMainOrientationKey key (orientation p)")
      case True
      from referenceOnKeyDown_main [OF False nn True, of s] obtain s3 where
        r: "referenceOnKeyDown p key s =
           (if \<not> isOpen p \<and> openOnArrowKeyDown p then (s3, [StopEvent, OpenChange True])
            else (fst (onKeyDown p key s3),
                  [StopEvent] @ snd (onKeyDown p key s3)
                  @ (if isOpen p then [Navigate (Some (indexRef (fst (onKeyDown p key s3))))] else [])))"
        ..
      show ?thesis
        using a onKeyDown_reports [of i p key s3] onKeyDown_main_index [OF True nn, of s3]
        unfolding r by (auto split: if_splits)
    next
      case nm: False
      with a nn False show ?thesis
        by (auto simp: referenceOnKeyDown_def Let_def split: if_splits)
    qed
  qed
qed

lemma indexOfFrom_range:
  "indexOfFrom xs v k \<noteq> - 1 \<Longrightarrow> 0 \<le> k \<Longrightarrow>
   k \<le> indexOfFrom xs v k \<and> indexOfFrom xs v k < k + int (length xs)
   \<and> xs ! nat (indexOfFrom xs v k - k) = v"
proof (induction xs arbitrary: k)
  case Nil
  then show ?case by simp
next
  case (Cons x xs)
  show ?case
  proof (cases "x = v")
    case True
    then show ?thesis by simp
  next
    case False
    with Cons.prems have ne: "indexOfFrom xs v (k + 1) \<noteq> - 1" by simp
    from Cons.IH [OF ne] Cons.prems(2)
    have ih: "k + 1 \<le> indexOfFrom xs v (k + 1)"
      "indexOfFrom xs v (k + 1) < k + 1 + int (length xs)"
      "xs ! nat (indexOfFrom xs v (k + 1) - (k + 1)) = v"
      by simp_all
    have "nat (indexOfFrom xs v (k + 1) - k) = Suc (nat (indexOfFrom xs v (k + 1) - (k + 1)))"
      using ih(1) by simp
    then show ?thesis using False ih by simp
  qed
qed

lemma indexOf_range:
  "indexOf xs v \<noteq> - 1 \<Longrightarrow>
   0 \<le> indexOf xs v \<and> indexOf xs v < int (length xs) \<and> xs ! nat (indexOf xs v) = v"
  using indexOfFrom_range [of xs v 0] by (simp add: indexOf_def)

lemma indexOf_in_bounds:
  "indexOf list v \<noteq> - 1 \<Longrightarrow> \<not> isIndexOutOfBounds list (indexOf list v) \<and> list ! nat (indexOf list v) = v"
  using indexOf_range [of list v] by (simp add: isIndexOutOfBounds_def)

lemma navStep_reports:
  assumes "Navigate (Some i) \<in> set (snd (navStep p ev s))"
  shows "(case ev of
            FloatingKeyDown key \<Rightarrow>
              reportable p i
              \<and> (isMainOrientationKey key (orientation p)
                   \<and> \<not> (isOpen p \<and> \<not> virtual p \<and> currentTargetIsActive p)
                 \<longrightarrow> \<not> isIndexOutOfBounds (listRef p) i)
          | ReferenceKeyDown key \<Rightarrow> reportable p i
          | ItemFocus el \<Rightarrow> \<not> isIndexOutOfBounds (listRef p) i \<and> listRef p ! nat i = Some el
          | ItemMouseMove el \<Rightarrow> \<not> isIndexOutOfBounds (listRef p) i \<and> listRef p ! nat i = el
          | ItemPointerLeave \<Rightarrow> False
          | FloatingPointerMove \<Rightarrow> False)"
proof (cases ev)
  case (FloatingKeyDown key)
  have r: "reportable p i"
    using assms FloatingKeyDown onKeyDown_reports by simp
  have "\<not> isIndexOutOfBounds (listRef p) i"
    if m: "isMainOrientationKey key (orientation p)"
      and n: "\<not> (isOpen p \<and> \<not> virtual p \<and> currentTargetIsActive p)"
  proof (cases "nested p \<and> isCrossOrientationCloseKey key (orientation p) (rtl p)")
    case True
    then show ?thesis using assms FloatingKeyDown by (simp add: onKeyDown_def)
  next
    case False
    show ?thesis
      using assms FloatingKeyDown onKeyDown_main [OF m False n, of s]
      by (simp split: if_splits)
  qed
  then show ?thesis using r FloatingKeyDown by simp
next
  case (ReferenceKeyDown key)
  then show ?thesis using assms referenceOnKeyDown_reports by simp
next
  case (ItemFocus el)
  then show ?thesis
    using assms indexOf_in_bounds [of "listRef p" "Some el"]
    by (auto simp: itemOnFocus_def Let_def split: if_splits)
next
  case (ItemMouseMove el)
  then show ?thesis
    using assms indexOf_in_bounds [of "listRef p" el]
    by (auto simp: itemOnMouseMove_def Let_def split: if_splits option.splits)
next
  case ItemPointerLeave
  then show ?thesis
    using assms by (auto simp: itemOnPointerLeave_def split: if_splits)
next
  case FloatingPointerMove
  then show ?thesis
    using assms by (simp add: floatingOnPointerMove_def)
qed

lemma navRun_step:
  "(p, ev, e) \<in> set (navRun s evs) \<Longrightarrow> \<exists>t. e \<in> set (snd (navStep p ev t))"
proof (induction evs arbitrary: s)
  case Nil
  then show ?case by simp
next
  case (Cons a evs)
  obtain q ev' where a: "a = (q, ev')" by (cases a)
  obtain s' effs where st: "navStep q ev' s = (s', effs)" by (cases "navStep q ev' s")
  from Cons.prems a st
  have "(p, ev, e) \<in> (\<lambda>x. (q, ev', x)) ` set effs \<or> (p, ev, e) \<in> set (navRun s' evs)"
    by simp
  then show ?case
  proof
    assume "(p, ev, e) \<in> (\<lambda>x. (q, ev', x)) ` set effs"
    then have "p = q" "ev = ev'" "e \<in> set effs" by auto
    then show ?thesis using st by (metis snd_conv)
  next
    assume "(p, ev, e) \<in> set (navRun s' evs)"
    then show ?thesis using Cons.IH by blast
  qed
qed

text \<open>
  Claim C9, amended. In every run of navigation operations, an index reported through
  \<open>onNavigate\<close> by a key handler is never an in-bounds disabled index, and one reported by
  the bounds-checked arrow-key branch of the floating element's handler is in bounds and
  not disabled; an index reported by item focus or hover is in bounds and is the position
  of the item the event was delivered to; pointer leave and pointer move report no index.
\<close>

theorem navigate_reports:
  assumes "(p, ev, Navigate (Some i)) \<in> set (navRun s evs)"
  shows "(case ev of
            FloatingKeyDown key \<Rightarrow>
              (isIndexOutOfBounds (listRef p) i
                 \<or> \<not> isDisabledAt (listRef p) (disabledIndices p) i)
              \<and> (isMainOrientationKey key (orientation p)
                   \<and> \<not> (isOpen p \<and> \<not> virtual p \<and> currentTargetIsActive p)
                 \<longrightarrow> \<not> isIndexOutOfBounds (listRef p) i)
          | ReferenceKeyDown key \<Rightarrow>
              isIndexOutOfBounds (listRef p) i
                \<or> \<not> isDisabledAt (listRef p) (disabledIndices p) i
          | ItemFocus el \<Rightarrow> \<not> isIndexOutOfBounds (listRef p) i \<and> listRef p ! nat i = Some el
          | ItemMouseMove el \<Rightarrow> \<not> isIndexOutOfBounds (listRef p) i \<and> listRef p ! nat i = el
          | ItemPointerLeave \<Rightarrow> False
          | FloatingPointerMove \<Rightarrow> False)"
proof -
  from navRun_step [OF assms] obtain t where "Navigate (Some i) \<in> set (snd (navStep p ev t))" ..
  from navStep_reports [OF this] show ?thesis
    by (simp add: reportable_def split: navEvent.splits)
qed

text \<open>
  Claim C9 as stated fails: hovering the item at a disabled index reports that index,
  and Home on an empty list reports index 0, which is out of bounds.
\<close>

theorem navigate_disabled_counterexample:
  "navRun \<lparr>indexRef = - 1, keyRef = None, blockPointerLeaveRef = False\<rparr>
      [(hoverProps, ItemMouseMove (Some (hoverItem 0)))]
     = [(hoverProps, ItemMouseMove (Some (hoverItem 0)), Navigate (Some 0))]
   \<and> isDisabledAt (listRef hoverProps) (disabledIndices hoverProps) 0
   \<and> navRun \<lparr>indexRef = - 1, keyRef = None, blockPointerLeaveRef = False\<rparr>
      [(hoverProps\<lparr>listRef := []\<rparr>, FloatingKeyDown ''Home'')]
     = [(hoverProps\<lparr>listRef := []\<rparr>, FloatingKeyDown ''Home'', Navigate (Some 0))]
   \<and> isIndexOutOfBounds [] 0"
  by (simp add: hoverProps_def hoverItem_def itemOnMouseMove_def indexOf_def isDisabledAt_def
      onKeyDown_def getMinIndex_def getMaxIndex_def findNonDisabledIndex.simps
      isCrossOrientationCloseKey_def isMainOrientationKey_def isIndexOutOfBounds_def
      ARROW_UP_def ARROW_DOWN_def ARROW_LEFT_def ARROW_RIGHT_def)

theorem navigate_reports_witness:
  "(gridProps, FloatingKeyDown ARROW_RIGHT, Navigate (Some 4))
     \<in> set (navRun \<lparr>indexRef = 3, keyRef = None, blockPointerLeaveRef = False\<rparr>
              [(gridProps, FloatingKeyDown ARROW_RIGHT), (gridProps, ItemPointerLeave)])
   \<and> \<not> isIndexOutOfBounds (listRef gridProps) 4
   \<and> \<not> isDisabledAt (listRef gridProps) (disabledIndices gridProps) 4"
proof -
  let ?s = "\<lparr>indexRef = 3, keyRef = None, blockPointerLeaveRef = False\<rparr>"
  have key: "isMainOrientationKey ARROW_RIGHT (orientation gridProps)"
    "\<not> (nested gridProps \<and> isCrossOrientationCloseKey ARROW_RIGHT (orientation gridProps) (rtl gridProps))"
    "\<not> (isOpen gridProps \<and> \<not> virtual gridProps \<and> currentTargetIsActive gridProps)"
    by (simp_all add: gridProps_def isMainOrientationKey_def)
  have len: "length (listRef gridProps) = 49" by (simp add: gridProps_def)
  have nxt: "nextMainIndex gridProps ARROW_RIGHT 3 = 4"
    using grid_min [OF len] grid_max [OF len] len
    by (simp add: nextMainIndex_def gridProps_def gridDisabledIndices_def
        isMainOrientationToEndKey_def findNonDisabledIndex.simps isDisabledAt_def)
  have mem: "(gridProps, FloatingKeyDown ARROW_RIGHT, Navigate (Some 4))
     \<in> set (navRun ?s [(gridProps, FloatingKeyDown ARROW_RIGHT), (gridProps, ItemPointerLeave)])"
    using len by (simp add: onKeyDown_main [OF key] nxt isIndexOutOfBounds_def)
  have "\<not> isIndexOutOfBounds (listRef gridProps) 4
      \<and> \<not> isDisabledAt (listRef gridProps) (disabledIndices gridProps) 4"
    using navigate_reports [OF mem] key by auto
  with mem show ?thesis by blast
qed

section \<open>Properties of the typeahead\<close>

lemmas typeahead_eval =
  typeaheadOnKeyDown_def fruitProps_def typeaheadInit_def typeaheadSync_def typeaheadTimeout_def
  allowRapidSuccessionOfFirstLetter_def charAt_def toLowerChar_def jsSlice_def
  startsWithBuffer_def toLocaleLowerCase_def indexOf_def matchIndex_def

text \<open>
  With lower-case keys the examples run as described: \<open>a\<close> matches Apple, a second \<open>a\<close>
  before the timer fires (after the render that made index 0 active) matches Apricot;
  \<open>b\<close> matches Banana and a following \<open>a\<close> keeps it with the buffer \<open>ba\<close>.
\<close>

lemma fruit_a_then_a:
  "typeaheadOnKeyDown fruitProps ''a'' (typeaheadInit fruitProps) =
     (\<lparr>stringRef = ''a'', prevIndexRef = Some (- 1), matchIndexRef = Some 0, typing = False\<rparr>,
      [ClearTimeout, SetTimeout, OnMatch 0])"
  "typeaheadOnKeyDown (fruitProps\<lparr>taActiveIndex := Some 0\<rparr>) ''a''
       (typeaheadSync (fruitProps\<lparr>taActiveIndex := Some 0\<rparr>)
          \<lparr>stringRef = ''a'', prevIndexRef = Some (- 1), matchIndexRef = Some 0, typing = False\<rparr>) =
     (\<lparr>stringRef = ''a'', prevIndexRef = Some 0, matchIndexRef = Some 1, typing = True\<rparr>,
      [ClearTimeout, SetTimeout, OnMatch 1])"
  by (simp_all add: typeahead_eval)

lemma fruit_b_then_a:
  "typeaheadOnKeyDown fruitProps ''b'' (typeaheadInit fruitProps) =
     (\<lparr>stringRef = ''b'', prevIndexRef = Some (- 1), matchIndexRef = Some 2, typing = False\<rparr>,
      [ClearTimeout, SetTimeout, OnMatch 2])"
  "typeaheadOnKeyDown (fruitProps\<lparr>taActiveIndex := Some 2\<rparr>) ''a''
       (typeaheadSync (fruitProps\<lparr>taActiveIndex := Some 2\<rparr>)
          \<lparr>stringRef = ''b'', prevIndexRef = Some (- 1), matchIndexRef = Some 2, typing = False\<rparr>) =
     (\<lparr>stringRef = ''ba'', prevIndexRef = Some (- 1), matchIndexRef = Some 2, typing = True\<rparr>,
      [ClearTimeout, SetTimeout, OnMatch 2])"
  by (simp_all add: typeahead_eval)

text \<open>
  What the default matcher reports: an index in bounds whose label, lower-cased, begins
  with the buffer as typed.
\<close>

lemma matchIndex_default:
  assumes "findMatch p = None" and "matchIndex p listContent prev buf \<noteq> - 1"
  shows "\<exists>t. 0 \<le> matchIndex p listContent prev buf
           \<and> matchIndex p listContent prev buf < int (length listContent)
           \<and> listContent ! nat (matchIndex p listContent prev buf) = Some t
           \<and> take (length buf) (toLocaleLowerCase t) = buf"
proof -
  define k where "k = (case prev of Some i \<Rightarrow> i | None \<Rightarrow> 0) + 1"
  define orderedList where
    "orderedList = jsSlice listContent k (int (length listContent)) @ jsSlice listContent 0 k"
  have m: "matchIndex p listContent prev buf =
      (case (case find (startsWithBuffer buf) orderedList of Some text \<Rightarrow> text | None \<Rightarrow> None) of
         None \<Rightarrow> - 1
       | Some t \<Rightarrow> if t \<noteq> [] then indexOf listContent (Some t) else - 1)"
    using assms(1) by (simp add: matchIndex_def Let_def k_def orderedList_def)
  with assms(2) obtain t where f: "find (startsWithBuffer buf) orderedList = Some (Some t)"
    and i: "matchIndex p listContent prev buf = indexOf listContent (Some t)"
    by (auto split: option.splits if_splits)
  from f have "startsWithBuffer buf (Some t)" by (auto simp: find_Some_iff)
  then have pre: "take (length buf) (toLocaleLowerCase t) = buf"
    by (simp add: startsWithBuffer_def)
  from assms(2) i have "indexOf listContent (Some t) \<noteq> - 1" by simp
  from indexOf_range [OF this] pre i show ?thesis by auto
qed

text \<open>
  Claim C6. The labels are Apple, Apricot, Banana. The matcher lower-cases the label and
  compares it with the buffer as typed, so the key \<open>A\<close> (Shift or Caps Lock) matches no
  label and \<open>onMatch\<close> is not called, where a case-insensitive prefix match would report
  index 0 as the key \<open>a\<close> does.
\<close>

theorem upper_case_key_not_matched:
  "typeaheadOnKeyDown fruitProps ''A'' (typeaheadInit fruitProps) =
     (\<lparr>stringRef = ''A'', prevIndexRef = Some (- 1), matchIndexRef = None, typing = False\<rparr>,
      [ClearTimeout, SetTimeout])
   \<and> snd (typeaheadOnKeyDown fruitProps ''a'' (typeaheadInit fruitProps))
       = [ClearTimeout, SetTimeout, OnMatch 0]"
  by (simp add: typeahead_eval)


section \<open>Properties of the safe polygon\<close>

lemma example_polygon:
  "getPolygon (1 / 2) SideBottom \<lparr>rectX = 0, rectY = 0, width = 100, height = 40\<rparr>
      \<lparr>rectX = 0, rectY = 40, width = 100, height = 60\<rparr> (50, 38)
   = [(48, 75 / 2), (48, 75 / 2), (0, 100), (100, 81 / 2)]"
  by (simp add: getPolygon_def left_def right_def top'_def bottom_def)

lemma example_far_point_outside:
  "\<not> isPointInPolygon (500, 500) [(48, 75 / 2), (48, 75 / 2), (0, 100), (100, 81 / 2)]"
  by (simp add: isPointInPolygon_def pointAt_def upt_rec)

lemma example_not_opposite:
  "\<not> leftOppositeSide SideBottom \<lparr>rectX = 0, rectY = 0, width = 100, height = 40\<rparr> 50 38"
  by (simp add: leftOppositeSide_def top'_def)

lemma example_trough:
  "inTrough SideBottom \<lparr>rectX = 0, rectY = 0, width = 100, height = 40\<rparr>
     \<lparr>rectX = 0, rectY = 40, width = 100, height = 60\<rparr> 50 45"
  "\<not> inTrough SideBottom \<lparr>rectX = 0, rectY = 0, width = 100, height = 40\<rparr>
     \<lparr>rectX = 0, rectY = 40, width = 100, height = 60\<rparr> 500 500"
  by (simp_all add: inTrough_def left_def right_def top'_def bottom_def)

text \<open>
  Claim C4. Placement bottom, reference \<open>{x:0, y:0, w:100, h:40}\<close>, floating element
  \<open>{x:0, y:40, w:100, h:60}\<close>, the pointer having left the reference at \<open>(50, 38)\<close>. For a
  pointer at \<open>(50, 45)\<close> the handler never calls \<open>onClose\<close>, whatever the event's target
  and type, the tree and the destroy flag (without a tree it returns after clearing the
  timer, and so it does with a tree whose parent links are acyclic). For a mouse pointer
  at \<open>(500, 500)\<close> whose target is outside the reference (on a pointer move) and outside
  the floating element (unless this is the leave re-check), with no open child in the
  tree, the handler calls \<open>onClose\<close>, and the ray-casting test puts the point outside the
  polygon.
\<close>

theorem safe_polygon_example:
  "(clientX ev = 50 \<and> clientY ev = 45 \<longrightarrow>
      (\<forall>s' effs. onPointerMove (exampleContext t nid lv) ev s = Some (s', effs) \<longrightarrow> OnClose \<notin> set effs)
      \<and> (t = None \<or> (\<exists>nodes. t = Some nodes \<and> acyclic (parentLinks nodes)) \<longrightarrow>
           (\<exists>s'. onPointerMove (exampleContext t nid lv) ev s = Some (s', [ClearTimer]))))
   \<and> (clientX ev = 500 \<and> clientY ev = 500
        \<and> (pointerType ev = None \<or> pointerType ev = Some ''mouse'')
        \<and> \<not> (eventType ev = ''pointermove'' \<and> targetInReference ev)
        \<and> \<not> (targetInFloating ev \<and> \<not> lv)
        \<and> (t = None \<or> (\<exists>nodes. t = Some nodes \<and> getChildren nodes nid = Some [])) \<longrightarrow>
      onPointerMove (exampleContext t nid lv) ev s
        = Some (s\<lparr>timerPending := False\<rparr>, [ClearTimer, ClearTimer, OnClose])
      \<and> \<not> isPointInPolygon (clientX ev, clientY ev)
            (getPolygon (1 / 2) SideBottom \<lparr>rectX = 0, rectY = 0, width = 100, height = 40\<rparr>
               \<lparr>rectX = 0, rectY = 40, width = 100, height = 60\<rparr> (50, 38)))"
proof -
  have near: "OnClose \<notin> set effs"
    if "clientX ev = 50" "clientY ev = 45"
      "onPointerMove (exampleContext t nid lv) ev s = Some (s', effs)" for s' effs
    using that example_trough(1) example_not_opposite
    by (auto simp: onPointerMove_def exampleContext_def Let_def Option.bind_eq_Some_conv
        split: if_splits option.splits)
  have near_none: "\<exists>s'. onPointerMove (exampleContext t nid lv) ev s = Some (s', [ClearTimer])"
    if "clientX ev = 50" "clientY ev = 45"
      and tr: "t = None \<or> (\<exists>nodes. t = Some nodes \<and> acyclic (parentLinks nodes))"
  proof (cases t)
    case None
    then show ?thesis
      using that(1,2) example_trough(1) example_not_opposite
      by (simp add: onPointerMove_def exampleContext_def Let_def)
  next
    case (Some nodes)
    then have "acyclic (parentLinks nodes)" using tr by simp
    from getChildren_exact [OF this, of nid] obtain r where "getChildren nodes nid = Some r"
      by blast
    then show ?thesis
      using that(1,2) example_trough(1) example_not_opposite Some
      by (simp add: onPointerMove_def exampleContext_def Let_def)
  qed
  have far: "onPointerMove (exampleContext t nid lv) ev s
        = Some (s\<lparr>timerPending := False\<rparr>, [ClearTimer, ClearTimer, OnClose])"
    if "clientX ev = 500" "clientY ev = 500"
      "pointerType ev = None \<or> pointerType ev = Some ''mouse''"
      "\<not> (eventType ev = ''pointermove'' \<and> targetInReference ev)"
      "\<not> (targetInFloating ev \<and> \<not> lv)"
      "t = None \<or> (\<exists>nodes. t = Some nodes \<and> getChildren nodes nid = Some [])"
    using that example_trough(2) example_not_opposite example_polygon example_far_point_outside
    by (auto simp: onPointerMove_def exampleContext_def Let_def)
  show ?thesis
    using near near_none far example_polygon example_far_point_outside by auto
qed

theorem safe_polygon_example_witness:
  "onPointerMove (exampleContext (Some chainNodes) (Some ''c'') False) farEvent
       \<lparr>polygonIsDestroyed = False, timerPending = False\<rparr>
     = Some (\<lparr>polygonIsDestroyed = False, timerPending = False\<rparr>, [ClearTimer, ClearTimer, OnClose])
   \<and> (\<exists>s'. onPointerMove (exampleContext None None False) (farEvent\<lparr>clientX := 50, clientY := 45\<rparr>)
       \<lparr>polygonIsDestroyed = False, timerPending = False\<rparr> = Some (s', [ClearTimer]))"
proof -
  have g: "getChildren chainNodes (Some ''c'') = Some []"
    by (simp add: getChildren_def getChildrenLoop.simps chainNodes_def chainNode_def parentIs_def
        contextOpen_def)
  have a: "onPointerMove (exampleContext (Some chainNodes) (Some ''c'') False) farEvent
       \<lparr>polygonIsDestroyed = False, timerPending = False\<rparr>
     = Some (\<lparr>polygonIsDestroyed = False, timerPending = False\<rparr>, [ClearTimer, ClearTimer, OnClose])"
    using safe_polygon_example [of farEvent "Some chainNodes" "Some ''c''" False
        "\<lparr>polygonIsDestroyed = False, timerPending = False\<rparr>"] g
    by (simp add: farEvent_def)
  have b: "\<exists>s'. onPointerMove (exampleContext None None False) (farEvent\<lparr>clientX := 50, clientY := 45\<rparr>)
       \<lparr>polygonIsDestroyed = False, timerPending = False\<rparr> = Some (s', [ClearTimer])"
    using safe_polygon_example [of "farEvent\<lparr>clientX := 50, clientY := 45\<rparr>" None None False
        "\<lparr>polygonIsDestroyed = False, timerPending = False\<rparr>"]
    by (simp add: farEvent_def)
  show ?thesis using a b by simp
qed

section \<open>Properties of the dismiss coordinator\<close>







section \<open>Properties of the prop-getter merge\<close>

lemma map_of_spread:
  "map_of (spread obj entries) k
     = (case map_of (rev entries) k of Some v \<Rightarrow> Some v | None \<Rightarrow> map_of obj k)"
proof (induction entries arbitrary: obj)
  case Nil
  then show ?case by (simp add: spread_def)
next
  case (Cons e es)
  have "map_of (spread obj (e # es)) k = map_of (spread (AList.update (fst e) (snd e) obj) es) k"
    by (simp add: spread_def)
  also have "\<dots> = (case map_of (rev es) k of Some v \<Rightarrow> Some v
                     | None \<Rightarrow> map_of (AList.update (fst e) (snd e) obj) k)"
    by (rule Cons.IH)
  finally show ?case
    by (cases e) (auto simp: update_conv' map_add_def split: option.splits)
qed

lemma mergeEntry_acc:
  "map_of (fst (mergeEntry (acc, m) (key, v))) k
     = (if k = key then Some (if isEventKey key then MergedHandler key else Plain v)
        else map_of acc k)"
  by (simp add: mergeEntry_def Let_def update_conv')

lemma mergeEntry_map:
  "snd (mergeEntry (acc, m) (key, v)) k
     = (if k = key \<and> isEventKey key
        then Some ((case m k of Some fs \<Rightarrow> fs | None \<Rightarrow> [])
                   @ (case v of Fn f \<Rightarrow> [f] | Attr a \<Rightarrow> []))
        else m k)"
  by (auto simp: mergeEntry_def Let_def split: propValue.splits option.splits)

lemma foldl_mergeEntry_acc:
  "map_of (fst (foldl mergeEntry am entries)) k
     = (case map_of (rev entries) k of
          Some v \<Rightarrow> Some (if isEventKey k then MergedHandler k else Plain v)
        | None \<Rightarrow> map_of (fst am) k)"
proof (induction entries arbitrary: am)
  case Nil
  then show ?case by simp
next
  case (Cons e es)
  obtain acc m where am: "am = (acc, m)" by (cases am)
  obtain key v where e: "e = (key, v)" by (cases e)
  show ?case
    using Cons.IH [of "mergeEntry am e"] mergeEntry_acc [of acc m key v k]
    by (auto simp: am e map_add_def split: option.splits)
qed

lemma foldl_mergeEntry_map:
  "snd (foldl mergeEntry am entries) k
     = (if isEventKey k \<and> k \<in> fst ` set entries
        then Some ((case snd am k of Some fs \<Rightarrow> fs | None \<Rightarrow> []) @ contributedHandlers k entries)
        else snd am k)"
proof (induction entries arbitrary: am)
  case Nil
  then show ?case by simp
next
  case (Cons e es)
  obtain acc m where am: "am = (acc, m)" by (cases am)
  obtain key v where e: "e = (key, v)" by (cases e)
  show ?case
    using Cons.IH [of "mergeEntry am e"] mergeEntry_map [of acc m key v k]
    by (auto simp: am e contributedHandlers_def image_iff split: option.splits propValue.splits)
qed

lemma foldl_mergeStep:
  "foldl mergeStep am pss
     = foldl mergeEntry am (concat (map (\<lambda>ps. case ps of None \<Rightarrow> [] | Some entries \<Rightarrow> entries) pss))"
  by (induction pss arbitrary: am) (auto simp: mergeStep_def split: option.splits)

lemma reduce_contributions:
  "foldl mergeStep am (map (\<lambda>v. case v of None \<Rightarrow> None | Some ps \<Rightarrow> ps elementKey) propsList @ [userProps])
     = foldl mergeEntry am (contributions userProps propsList elementKey)"
proof -
  have "concat (map (\<lambda>ps. case ps of None \<Rightarrow> [] | Some entries \<Rightarrow> entries)
                  (map (\<lambda>v. case v of None \<Rightarrow> None | Some ps \<Rightarrow> ps elementKey) propsList))
        = concat (map (\<lambda>v. case v of None \<Rightarrow> []
                      | Some ps \<Rightarrow> (case ps elementKey of None \<Rightarrow> [] | Some entries \<Rightarrow> entries))
                 propsList)"
    by (induction propsList) (auto split: option.splits)
  then show ?thesis
    by (simp add: foldl_mergeStep contributions_def mergeStep_def split: option.splits)
qed


lemma map_of_rev_distinct:
  "distinct (map fst xs) \<Longrightarrow> map_of (rev xs) = map_of xs"
proof (induction xs)
  case Nil
  then show ?case by simp
next
  case (Cons x xs)
  then have none: "map_of xs (fst x) = None" and ih: "map_of (rev xs) = map_of xs"
    by (simp_all add: map_of_eq_None_iff)
  show ?case
  proof
    fix k
    show "map_of (rev (x # xs)) k = map_of (x # xs) k"
    proof (cases "k = fst x")
      case True
      then show ?thesis using none ih by (cases x) (simp add: map_add_def)
    next
      case False
      then show ?thesis using ih by (cases x) (simp add: map_add_def split: option.splits)
    qed
  qed
qed

lemma mergeEntry_distinct:
  "distinct (map fst (fst am)) \<Longrightarrow> distinct (map fst (fst (mergeEntry am kv)))"
  by (simp add: mergeEntry_def Let_def distinct_update)

lemma foldl_mergeEntry_distinct:
  "distinct (map fst (fst am)) \<Longrightarrow> distinct (map fst (fst (foldl mergeEntry am entries)))"
  by (induction entries arbitrary: am) (simp_all add: mergeEntry_distinct)

lemma map_of_plain:
  "map_of (map (\<lambda>kv. (fst kv, Plain (snd kv))) u) k = map_option Plain (map_of u k)"
  by (induction u) auto

text \<open>
  Claim C2. For every caller-supplied prop object (or none), every list of hook results
  and every element key: a key that begins with \<open>on\<close> and occurs in some contribution is
  mapped to the one merged closure, and calling that closure calls the functions
  contributed under the key, each contribution once, in contribution order (the hooks in
  list order, the caller last). Any other key holds the value of its last contribution,
  so a value the caller supplies wins; the floating element gets \<open>tabIndex = -1\<close> when
  nothing contributes \<open>tabIndex\<close>.
\<close>

theorem mergeProps_rule:
  "(isEventKey key \<and> key \<in> fst ` set (contributions userProps propsList elementKey) \<longrightarrow>
      map_of (fst (mergeProps userProps propsList elementKey)) key = Some (MergedHandler key)
      \<and> invoke (snd (mergeProps userProps propsList elementKey)) (MergedHandler key) args
          = map (\<lambda>f. (f, args))
              (contributedHandlers key (contributions userProps propsList elementKey)))
   \<and> (\<not> isEventKey key \<longrightarrow>
        map_of (fst (mergeProps userProps propsList elementKey)) key
          = (case map_of (rev (contributions userProps propsList elementKey)) key of
               Some v \<Rightarrow> Some (Plain v)
             | None \<Rightarrow> if elementKey = FloatingKey \<and> key = ''tabIndex''
                       then Some (Plain (Attr (NumV (- 1)))) else None)
        \<and> (\<forall>u v. userProps = Some u \<and> map_of (rev u) key = Some v \<longrightarrow>
              map_of (fst (mergeProps userProps propsList elementKey)) key = Some (Plain v)))"
proof -
  let ?cs = "contributions userProps propsList elementKey"
  let ?r = "foldl mergeEntry ([], Map.empty) ?cs"
  let ?obj0 = "if elementKey = FloatingKey then [(''tabIndex'', Plain (Attr (NumV (- 1))))] else []"
  let ?ups = "case userProps of None \<Rightarrow> [] | Some u \<Rightarrow> map (\<lambda>kv. (fst kv, Plain (snd kv))) u"
  have mp: "mergeProps userProps propsList elementKey = (spread (spread ?obj0 ?ups) (fst ?r), snd ?r)"
    unfolding mergeProps_def Let_def reduce_contributions by simp
  have "distinct (map fst (fst ?r))"
    by (rule foldl_mergeEntry_distinct) simp
  then have rv: "map_of (rev (fst ?r)) = map_of (fst ?r)"
    by (rule map_of_rev_distinct)
  have acc: "map_of (fst ?r) k
      = (case map_of (rev ?cs) k of
           Some v \<Rightarrow> Some (if isEventKey k then MergedHandler k else Plain v) | None \<Rightarrow> None)" for k
    using foldl_mergeEntry_acc [of "([], Map.empty)" ?cs k] by (simp split: option.splits)
  have hm: "snd ?r k = (if isEventKey k \<and> k \<in> fst ` set ?cs
                        then Some (contributedHandlers k ?cs) else None)" for k
    using foldl_mergeEntry_map [of "([], Map.empty)" ?cs k] by simp
  have obj: "map_of (fst (mergeProps userProps propsList elementKey)) k
      = (case map_of (fst ?r) k of Some v \<Rightarrow> Some v | None \<Rightarrow> map_of (spread ?obj0 ?ups) k)" for k
    by (simp add: mp map_of_spread rv)
  have user_in: "map_of (rev ?cs) k = Some v" if "userProps = Some u" "map_of (rev u) k = Some v" for u v k
    using that by (simp add: contributions_def map_add_def)
  have user_out: "map_of (spread ?obj0 ?ups) k = map_of ?obj0 k" if "map_of (rev ?cs) k = None" for k
  proof (cases userProps)
    case None
    then show ?thesis by (simp add: spread_def)
  next
    case (Some u)
    from that Some have "map_of (rev u) k = None"
      by (simp add: contributions_def map_add_def split: option.splits)
    then have "k \<notin> fst ` set u" by (simp add: map_of_eq_None_iff)
    then have "map_of (rev (map (\<lambda>kv. (fst kv, Plain (snd kv))) u)) k = None"
      by (simp add: map_of_eq_None_iff image_image)
    with Some show ?thesis by (simp add: map_of_spread)
  qed
  have ev: "map_of (fst (mergeProps userProps propsList elementKey)) key = Some (MergedHandler key)
      \<and> invoke (snd (mergeProps userProps propsList elementKey)) (MergedHandler key) args
          = map (\<lambda>f. (f, args)) (contributedHandlers key ?cs)"
    if e: "isEventKey key" and c: "key \<in> fst ` set ?cs"
  proof -
    from c have "key \<in> fst ` set (rev ?cs)" by simp
    then obtain v where "map_of (rev ?cs) key = Some v"
      by (metis map_of_eq_None_iff not_Some_eq)
    then have "map_of (fst ?r) key = Some (MergedHandler key)"
      using acc [of key] e by simp
    then show ?thesis
      using obj [of key] hm [of key] e c by (simp add: invoke_def mp)
  qed
  have at: "map_of (fst (mergeProps userProps propsList elementKey)) key
          = (case map_of (rev ?cs) key of
               Some v \<Rightarrow> Some (Plain v)
             | None \<Rightarrow> if elementKey = FloatingKey \<and> key = ''tabIndex''
                       then Some (Plain (Attr (NumV (- 1)))) else None)"
    if ne: "\<not> isEventKey key"
  proof (cases "map_of (rev ?cs) key")
    case None
    then show ?thesis
      using obj [of key] acc [of key] user_out [OF None] by auto
  next
    case (Some v)
    then show ?thesis
      using obj [of key] acc [of key] ne by simp
  qed
  show ?thesis
    using ev at user_in by auto
qed



theorem mergeProps_rule_witness:
  "map_of (fst (mergeProps (Some callerProps) [hookA, None, hookB] ReferenceKey)) ''onClick''
     = Some (MergedHandler ''onClick'')
   \<and> invoke (snd (mergeProps (Some callerProps) [hookA, None, hookB] ReferenceKey))
        (MergedHandler ''onClick'') (0 :: nat) = [(1, 0), (2, 0), (3, 0)]
   \<and> map_of (fst (mergeProps (Some callerProps) [hookA, None, hookB] ReferenceKey)) ''role''
     = Some (Plain (Attr (StrV ''button'')))"
proof -
  have cs: "contributions (Some callerProps) [hookA, None, hookB] ReferenceKey
      = [(''onClick'', Fn 1), (''role'', Attr (StrV ''menu'')), (''aria-expanded'', Attr (BoolV True)),
         (''onClick'', Fn 2), (''role'', Attr (StrV ''button'')), (''onClick'', Fn 3)]"
    by (simp add: contributions_def hookA_def hookB_def callerProps_def)
  have a: "map_of (fst (mergeProps (Some callerProps) [hookA, None, hookB] ReferenceKey)) ''onClick''
     = Some (MergedHandler ''onClick'')
   \<and> invoke (snd (mergeProps (Some callerProps) [hookA, None, hookB] ReferenceKey))
        (MergedHandler ''onClick'') (0 :: nat) = [(1, 0), (2, 0), (3, 0)]"
    using mergeProps_rule [of "''onClick''" "Some callerProps" "[hookA, None, hookB]" ReferenceKey "0 :: nat"]
    by (simp add: cs isEventKey_def contributedHandlers_def)
  have b: "map_of (fst (mergeProps (Some callerProps) [hookA, None, hookB] ReferenceKey)) ''role''
     = Some (Plain (Attr (StrV ''button'')))"
    using mergeProps_rule [of "''role''" "Some callerProps" "[hookA, None, hookB]" ReferenceKey "0 :: nat"]
    by (simp add: cs isEventKey_def)
  show ?thesis using a b by simp
qed

section \<open>Properties of the aria-hidden ledger\<close>

lemma hideNode_pair:
  "hideNode mk ref node (w, acc) = (fst (hideNode mk ref node (w, [])), acc @ [node])"
  by (simp add: hideNode_def Let_def)

lemma fold_hideNode_snd:
  "snd (fold (hideNode mk ref) H st) = snd st @ H"
  by (induction H arbitrary: st) (simp_all add: hideNode_def Let_def)

lemma deep_fold:
  "deep targets K mk ref d parent st = fold (hideNode mk ref) (hiddenBelow targets K d parent) st"
  "deepChildren targets K mk ref kids parent i st
     = fold (hideNode mk ref) (hiddenAmong targets K kids parent i) st"
  by (induction targets K mk ref d parent st and targets K mk ref kids parent i st
      rule: deep_deepChildren.induct) simp_all

lemma ledgerView_hideNode:
  assumes "mk \<noteq> ''aria-hidden''"
  shows "ledgerView el (fst (hideNode mk ref node st))
         = (if node = el then hideLocal (ledgerView el (fst st)) else ledgerView el (fst st))"
  using assms by (auto simp: hideNode_def ledgerView_def hideLocal_def Let_def)

lemma ledgerView_unhideNode:
  assumes "closureMarkerName c \<noteq> ''aria-hidden''"
  shows "ledgerView el (unhideNode c node w)
         = (if node = el then unhideLocal (ledgerView el w) else ledgerView el w)"
  using assms by (auto simp: unhideNode_def ledgerView_def unhideLocal_def Let_def)

lemma frame_hideNode:
  "lockCount (fst (hideNode mk ref node st)) = lockCount (fst st)"
  "markerMap (fst (hideNode mk ref node st)) = markerMap (fst st)"
  by (simp_all add: hideNode_def Let_def)

lemma frame_unhideNode:
  "lockCount (unhideNode c node w) = lockCount w"
  by (simp add: unhideNode_def Let_def)

lemma fold_hideNode_view:
  assumes "mk \<noteq> ''aria-hidden''"
  shows "ledgerView el (fst (fold (hideNode mk ref) H st))
         = (hideLocal ^^ count_list H el) (ledgerView el (fst st))"
proof (induction H arbitrary: st)
  case Nil
  then show ?case by simp
next
  case (Cons n H)
  show ?case
    using Cons.IH [of "hideNode mk ref n st"] ledgerView_hideNode [OF assms, of el ref n st]
    by (simp add: funpow_swap1)
qed

lemma fold_hideNode_frame:
  "lockCount (fst (fold (hideNode mk ref) H st)) = lockCount (fst st)"
  "markerMap (fst (fold (hideNode mk ref) H st)) = markerMap (fst st)"
  by (induction H arbitrary: st) (simp_all add: frame_hideNode)

lemma fold_unhideNode_view:
  assumes "closureMarkerName c \<noteq> ''aria-hidden''"
  shows "ledgerView el (fold (unhideNode c) H w)
         = (unhideLocal ^^ count_list H el) (ledgerView el w)"
proof (induction H arbitrary: w)
  case Nil
  then show ?case by simp
next
  case (Cons n H)
  show ?case
    using Cons.IH [of "unhideNode c n w"] ledgerView_unhideNode [OF assms, of el n w]
    by (simp add: funpow_swap1)
qed

lemma fold_unhideNode_frame:
  "lockCount (fold (unhideNode c) H w) = lockCount w"
  by (induction H arbitrary: w) (simp_all add: frame_unhideNode)

lemma hideOthers_effect:
  assumes "mk \<noteq> ''aria-hidden''"
  shows "ledgerView el (fst (hideOthers document targets parent mk w))
           = (hideLocal ^^ count_list (outsideNodes document targets parent) el) (ledgerView el w)
       \<and> lockCount (fst (hideOthers document targets parent mk w)) = lockCount w + 1
       \<and> hiddenNodes (snd (hideOthers document targets parent mk w)) = outsideNodes document targets parent
       \<and> closureMarkerName (snd (hideOthers document targets parent mk w)) = mk"
proof -
  let ?w1 = "if markerMap w mk = None
             then w\<lparr>markerMap := (markerMap w)(mk \<mapsto> weakMapCount w),
                    weakMaps := (weakMaps w)(weakMapCount w := Map.empty),
                    weakMapCount := Suc (weakMapCount w)\<rparr>
             else w"
  have v1: "ledgerView el ?w1 = ledgerView el w" and l1: "lockCount ?w1 = lockCount w"
    by (simp_all add: ledgerView_def)
  let ?ref = "case markerMap ?w1 mk of Some r \<Rightarrow> r | None \<Rightarrow> 0"
  let ?K = "fold (\<lambda>t K. keep K (Some t)) targets {}"
  let ?st = "case parent of
               None \<Rightarrow> (?w1, [])
             | Some p \<Rightarrow> (case subtreeAt document p of
                            None \<Rightarrow> (?w1, [])
                          | Some sub \<Rightarrow> deep targets ?K mk ?ref sub p (?w1, []))"
  have st: "?st = fold (hideNode mk ?ref) (outsideNodes document targets parent) (?w1, [])"
    by (simp add: outsideNodes_def deep_fold split: option.splits)
  have h: "hideOthers document targets parent mk w
      = ((fst ?st)\<lparr>lockCount := lockCount (fst ?st) + 1\<rparr>,
         \<lparr>hiddenNodes = snd ?st, markerCounter = ?ref, closureMarkerName = mk\<rparr>)"
    by (simp add: hideOthers_def Let_def)
  have a: "ledgerView el (fst (hideOthers document targets parent mk w))
           = (hideLocal ^^ count_list (outsideNodes document targets parent) el) (ledgerView el w)"
    unfolding h st using fold_hideNode_view [OF assms, of el ?ref _ "(?w1, [])"] v1
    by (simp add: ledgerView_def)
  have b: "lockCount (fst (hideOthers document targets parent mk w)) = lockCount w + 1"
    unfolding h st using fold_hideNode_frame(1) [of mk ?ref _ "(?w1, [])"] l1 by simp
  have c: "hiddenNodes (snd (hideOthers document targets parent mk w)) = outsideNodes document targets parent"
    unfolding h st by (simp add: fold_hideNode_snd)
  have d: "closureMarkerName (snd (hideOthers document targets parent mk w)) = mk"
    unfolding h by simp
  show ?thesis using a b c d by blast
qed

lemma hideOthersTimes_effect:
  assumes "mk \<noteq> ''aria-hidden''"
  shows "ledgerView el (fst (hideOthersTimes N document targets parent mk w))
           = (hideLocal ^^ (N * count_list (outsideNodes document targets parent) el)) (ledgerView el w)
       \<and> lockCount (fst (hideOthersTimes N document targets parent mk w)) = lockCount w + int N
       \<and> length (snd (hideOthersTimes N document targets parent mk w)) = N
       \<and> (\<forall>c \<in> set (snd (hideOthersTimes N document targets parent mk w)).
             hiddenNodes c = outsideNodes document targets parent \<and> closureMarkerName c = mk)"
proof (induction N arbitrary: w)
  case 0
  then show ?case by simp
next
  case (Suc N)
  let ?m = "count_list (outsideNodes document targets parent) el"
  let ?w1 = "fst (hideOthers document targets parent mk w)"
  have "Suc N * ?m = N * ?m + ?m" by simp
  then have "(hideLocal ^^ (N * ?m)) ((hideLocal ^^ ?m) (ledgerView el w))
        = (hideLocal ^^ (Suc N * ?m)) (ledgerView el w)"
    by (simp only: funpow_add o_apply)
  then show ?case
    using Suc.IH [of ?w1] hideOthers_effect [OF assms, of el document targets parent w]
    by (simp add: Let_def)
qed

lemma release_attrs:
  "attrs (release c w) = attrs (fold (unhideNode c) (hiddenNodes c) w)"
  by (simp add: release_def Let_def)

lemma release_view:
  assumes "closureMarkerName c \<noteq> ''aria-hidden''" and "lockCount w \<noteq> 1"
  shows "ledgerView el (release c w) = (unhideLocal ^^ count_list (hiddenNodes c) el) (ledgerView el w)"
proof -
  have "lockCount (fold (unhideNode c) (hiddenNodes c) w) - 1 \<noteq> 0"
    using assms(2) by (simp add: fold_unhideNode_frame)
  then have "ledgerView el (release c w) = ledgerView el (fold (unhideNode c) (hiddenNodes c) w)"
    by (simp add: release_def Let_def ledgerView_def)
  then show ?thesis by (simp only: fold_unhideNode_view [OF assms(1)])
qed

lemma release_lockCount:
  "lockCount (release c w) = lockCount w - 1"
  by (simp add: release_def Let_def fold_unhideNode_frame)

lemma release_last:
  assumes "closureMarkerName c \<noteq> ''aria-hidden''"
  shows "snd (snd (ledgerView el (release c w)))
         = snd (snd ((unhideLocal ^^ count_list (hiddenNodes c) el) (ledgerView el w)))"
proof -
  have "snd (snd (ledgerView el (release c w)))
        = snd (snd (ledgerView el (fold (unhideNode c) (hiddenNodes c) w)))"
    by (simp add: release_attrs ledgerView_def)
  then show ?thesis by (simp only: fold_unhideNode_view [OF assms])
qed

lemma fold_release_attr:
  assumes "\<forall>c \<in> set rs. hiddenNodes c = H \<and> closureMarkerName c \<noteq> ''aria-hidden''"
    and "lockCount w = int (length rs)"
  shows "snd (snd (ledgerView el (fold release rs w)))
         = snd (snd ((unhideLocal ^^ (length rs * count_list H el)) (ledgerView el w)))"
  using assms
proof (induction rs arbitrary: w)
  case Nil
  then show ?case by simp
next
  case (Cons c rs)
  then have c: "hiddenNodes c = H" "closureMarkerName c \<noteq> ''aria-hidden''" by simp_all
  show ?case
  proof (cases "rs = []")
    case True
    then show ?thesis using release_last [OF c(2), of el w] c(1) by simp
  next
    case False
    then have "lockCount w \<noteq> 1" using Cons.prems(2) by (cases rs) auto
    from release_view [OF c(2) this, of el]
    have v: "ledgerView el (release c w) = (unhideLocal ^^ count_list H el) (ledgerView el w)"
      using c(1) by simp
    have l: "lockCount (release c w) = int (length rs)"
      using release_lockCount [of c w] Cons.prems(2) by simp
    have "snd (snd (ledgerView el (fold release rs (release c w))))
         = snd (snd ((unhideLocal ^^ (length rs * count_list H el)) (ledgerView el (release c w))))"
      using Cons.IH [of "release c w"] Cons.prems(1) l by simp
    moreover have "length (c # rs) * count_list H el = length rs * count_list H el + count_list H el"
      by simp
    ultimately show ?thesis
      by (simp only: fold_simps v funpow_add o_apply)
  qed
qed

lemma hideLocal_funpow:
  "(hideLocal ^^ Suc k) (None, False, a)
     = (Some (Num (int k + 1)), a \<noteq> None \<and> a \<noteq> Some ''false'',
        if a \<noteq> None \<and> a \<noteq> Some ''false'' then a else Some ''true'')"
proof (induction k)
  case 0
  then show ?case by (simp add: hideLocal_def orZeroPlusOne_def)
next
  case (Suc k)
  have "(hideLocal ^^ Suc (Suc k)) (None, False, a) = hideLocal ((hideLocal ^^ Suc k) (None, False, a))"
    by simp
  also have "\<dots> = (Some (Num (int (Suc k) + 1)), a \<noteq> None \<and> a \<noteq> Some ''false'',
        if a \<noteq> None \<and> a \<noteq> Some ''false'' then a else Some ''true'')"
    unfolding Suc.IH by (auto simp: hideLocal_def orZeroPlusOne_def Let_def)
  finally show ?case .
qed

lemma unhideLocal_funpow:
  "j < k \<Longrightarrow>
   (unhideLocal ^^ Suc j) (Some (Num (int k)), u, a)
     = (Some (Num (int k - int (Suc j))), u \<and> Suc j < k, if Suc j = k \<and> \<not> u then None else a)"
proof (induction j)
  case 0
  then show ?case
    by (auto simp: unhideLocal_def minusOne_def falsy_def Let_def)
next
  case (Suc j)
  then have lt: "j < k" "Suc j < k" by simp_all
  have "(unhideLocal ^^ Suc (Suc j)) (Some (Num (int k)), u, a)
        = unhideLocal ((unhideLocal ^^ Suc j) (Some (Num (int k)), u, a))" by simp
  also have "\<dots> = unhideLocal (Some (Num (int k - int (Suc j))), u, a)"
    using Suc.IH [OF lt(1)] lt(2) by simp
  also have "\<dots> = (Some (Num (int k - int (Suc (Suc j)))), u \<and> Suc (Suc j) < k,
                     if Suc (Suc j) = k \<and> \<not> u then None else a)"
    using lt(2) by (auto simp: unhideLocal_def minusOne_def falsy_def Let_def)
  finally show ?case .
qed

lemma local_round_trip:
  "snd (snd ((unhideLocal ^^ k) ((hideLocal ^^ k) (None, False, a))))
     = (if 0 < k \<and> a = Some ''false'' then None else a)"
proof (cases k)
  case 0
  then show ?thesis by simp
next
  case (Suc j)
  have "(hideLocal ^^ k) (None, False, a)
     = (Some (Num (int k)), a \<noteq> None \<and> a \<noteq> Some ''false'',
        if a \<noteq> None \<and> a \<noteq> Some ''false'' then a else Some ''true'')"
    using hideLocal_funpow [of j a] Suc by (simp add: add.commute)
  then show ?thesis
    using unhideLocal_funpow [of j k] Suc by auto
qed

lemma round_trip_general:
  assumes mk: "mk \<noteq> ''aria-hidden''" and clean: "cleanLedger w"
    and act: "hideOthersTimes N document targets parent mk w = (w1, cs)"
    and rs: "length rs = N" "set rs \<subseteq> set cs"
  shows "attrs (fold release rs w1) el ''aria-hidden''
         = (if 0 < N \<and> el \<in> set (outsideNodes document targets parent)
               \<and> attrs w el ''aria-hidden'' = Some ''false''
            then None else attrs w el ''aria-hidden'')"
proof -
  let ?H = "outsideNodes document targets parent"
  let ?m = "count_list ?H el"
  from hideOthersTimes_effect [OF mk, of el N document targets parent w] act
  have v1: "ledgerView el w1 = (hideLocal ^^ (N * ?m)) (ledgerView el w)"
    and l1: "lockCount w1 = lockCount w + int N"
    and cs: "\<forall>c \<in> set cs. hiddenNodes c = ?H \<and> closureMarkerName c = mk"
    by simp_all
  have v0: "ledgerView el w = (None, False, attrs w el ''aria-hidden'')"
    using clean by (simp add: cleanLedger_def ledgerView_def)
  have "\<forall>c \<in> set rs. hiddenNodes c = ?H \<and> closureMarkerName c \<noteq> ''aria-hidden''"
    using cs rs(2) mk by auto
  moreover have "lockCount w1 = int (length rs)"
    using l1 clean rs(1) by (simp add: cleanLedger_def)
  ultimately have "snd (snd (ledgerView el (fold release rs w1)))
         = snd (snd ((unhideLocal ^^ (length rs * ?m)) (ledgerView el w1)))"
    by (rule fold_release_attr)
  then have "attrs (fold release rs w1) el ''aria-hidden''
      = snd (snd ((unhideLocal ^^ (N * ?m)) ((hideLocal ^^ (N * ?m)) (None, False, attrs w el ''aria-hidden''))))"
    using rs(1) v1 v0 by (simp add: ledgerView_def)
  also have "\<dots> = (if 0 < N * ?m \<and> attrs w el ''aria-hidden'' = Some ''false''
                     then None else attrs w el ''aria-hidden'')"
    by (rule local_round_trip)
  finally show ?thesis
    using count_list_0_iff [of ?H el] by auto
qed

lemma activation_view:
  assumes mk: "mk \<noteq> ''aria-hidden''" and clean: "cleanLedger w"
    and act: "hideOthersTimes N document targets parent mk w = (w1, cs)"
    and hid: "0 < N" "el \<in> set (outsideNodes document targets parent)"
  shows "el \<in> uncontrolledNodes w1
           \<longleftrightarrow> attrs w el ''aria-hidden'' \<noteq> None \<and> attrs w el ''aria-hidden'' \<noteq> Some ''false''"
    and "attrs w1 el ''aria-hidden''
           = (if attrs w el ''aria-hidden'' \<noteq> None \<and> attrs w el ''aria-hidden'' \<noteq> Some ''false''
              then attrs w el ''aria-hidden'' else Some ''true'')"
proof -
  let ?m = "count_list (outsideNodes document targets parent) el"
  have "?m \<noteq> 0" using hid(2) count_list_0_iff [of "outsideNodes document targets parent" el] by simp
  then obtain k where k: "N * ?m = Suc k" using hid(1) by (cases "N * ?m") auto
  from hideOthersTimes_effect [OF mk, of el N document targets parent w] act
  have "ledgerView el w1 = (hideLocal ^^ (N * ?m)) (ledgerView el w)" by simp
  also have "ledgerView el w = (None, False, attrs w el ''aria-hidden'')"
    using clean by (simp add: cleanLedger_def ledgerView_def)
  finally have v: "ledgerView el w1
      = (Some (Num (int k + 1)),
         attrs w el ''aria-hidden'' \<noteq> None \<and> attrs w el ''aria-hidden'' \<noteq> Some ''false'',
         if attrs w el ''aria-hidden'' \<noteq> None \<and> attrs w el ''aria-hidden'' \<noteq> Some ''false''
         then attrs w el ''aria-hidden'' else Some ''true'')"
    unfolding k hideLocal_funpow .
  from v show "el \<in> uncontrolledNodes w1
           \<longleftrightarrow> attrs w el ''aria-hidden'' \<noteq> None \<and> attrs w el ''aria-hidden'' \<noteq> Some ''false''"
    by (simp add: ledgerView_def)
  from v show "attrs w1 el ''aria-hidden''
           = (if attrs w el ''aria-hidden'' \<noteq> None \<and> attrs w el ''aria-hidden'' \<noteq> Some ''false''
              then attrs w el ''aria-hidden'' else Some ''true'')"
    by (simp add: ledgerView_def)
qed

text \<open>
  Claim C7, amended. Start with no lock active and nothing counted. After \<open>N \<ge> 1\<close>
  activations of \<open>hideOthers\<close> with the same targets and parent (and the default marker
  name) and \<open>N\<close> calls of the release functions they returned, every element's
  \<open>aria-hidden\<close> attribute is what it was before the first activation, except that an
  element outside the kept set that carried \<open>aria-hidden="false"\<close> has lost the attribute.
  An outside element that carried \<open>aria-hidden\<close> with another value is recorded as
  uncontrolled and its attribute is not written.
\<close>

theorem aria_hidden_round_trip:
  assumes "cleanLedger w" and "1 \<le> N"
    and "hideOthersTimes N document targets parent ''data-aria-hidden'' w = (w1, cs)"
    and "length rs = N" and "set rs \<subseteq> set cs"
  shows "attrs (fold release rs w1) el ''aria-hidden''
           = (if el \<in> set (outsideNodes document targets parent)
                 \<and> attrs w el ''aria-hidden'' = Some ''false''
              then None else attrs w el ''aria-hidden'')
       \<and> (el \<in> set (outsideNodes document targets parent)
            \<and> attrs w el ''aria-hidden'' \<noteq> None \<and> attrs w el ''aria-hidden'' \<noteq> Some ''false'' \<longrightarrow>
          el \<in> uncontrolledNodes w1 \<and> attrs w1 el ''aria-hidden'' = attrs w el ''aria-hidden'')"
proof -
  have mk: "''data-aria-hidden'' \<noteq> ''aria-hidden''" by simp
  have pos: "0 < N" using assms(2) by simp
  show ?thesis
    using round_trip_general [OF mk assms(1) assms(3) assms(4) assms(5), of el] pos
      activation_view [OF mk assms(1) assms(3) pos, of el]
    by auto
qed

lemma page_outside: "outsideNodes page [[1, 3, 0]] (Some [1]) = [[1, 0], [1, 1], [1, 2]]"
  by (simp add: outsideNodes_def page_def keep.simps parentNode_def)

lemma page_clean: "cleanLedger pageWorld"
  by (simp add: cleanLedger_def pageWorld_def)

text \<open>
  Claim C7 as stated fails on an element that carries \<open>aria-hidden="false"\<close>: it counts
  as not hidden, gets \<open>aria-hidden="true"\<close>, and the last release removes the attribute.
\<close>

theorem aria_hidden_false_counterexample:
  "cleanLedger pageWorld
   \<and> [1, 2] \<in> set (outsideNodes page [[1, 3, 0]] (Some [1]))
   \<and> attrs pageWorld [1, 2] ''aria-hidden'' = Some ''false''
   \<and> attrs (fold release (snd (hideOthersTimes 2 page [[1, 3, 0]] (Some [1]) ''data-aria-hidden'' pageWorld))
              (fst (hideOthersTimes 2 page [[1, 3, 0]] (Some [1]) ''data-aria-hidden'' pageWorld)))
        [1, 2] ''aria-hidden'' = None"
proof -
  let ?r = "hideOthersTimes 2 page [[1, 3, 0]] (Some [1]) ''data-aria-hidden'' pageWorld"
  have mk: "''data-aria-hidden'' \<noteq> ''aria-hidden''" by simp
  have len: "length (snd ?r) = 2"
    using hideOthersTimes_effect [OF mk, of "[]" 2 page "[[1, 3, 0]]" "Some [1]" pageWorld] by simp
  have r: "?r = (fst ?r, snd ?r)" by simp
  have s: "set (snd ?r) \<subseteq> set (snd ?r)" by simp
  have "attrs (fold release (snd ?r) (fst ?r)) [1, 2] ''aria-hidden'' = None"
    using round_trip_general [OF mk page_clean r len s, of "[1, 2]"] page_outside
    by (simp add: pageWorld_def)
  then show ?thesis
    using page_clean page_outside by (simp add: pageWorld_def)
qed

theorem aria_hidden_round_trip_witness:
  "attrs (fold release (snd (hideOthersTimes 2 page [[1, 3, 0]] (Some [1]) ''data-aria-hidden'' pageWorld))
              (fst (hideOthersTimes 2 page [[1, 3, 0]] (Some [1]) ''data-aria-hidden'' pageWorld)))
        [1, 0] ''aria-hidden'' = None
   \<and> attrs (fold release (snd (hideOthersTimes 2 page [[1, 3, 0]] (Some [1]) ''data-aria-hidden'' pageWorld))
              (fst (hideOthersTimes 2 page [[1, 3, 0]] (Some [1]) ''data-aria-hidden'' pageWorld)))
        [1, 1] ''aria-hidden'' = Some ''true''
   \<and> [1, 1] \<in> uncontrolledNodes (fst (hideOthersTimes 2 page [[1, 3, 0]] (Some [1]) ''data-aria-hidden'' pageWorld))"
proof -
  let ?r = "hideOthersTimes 2 page [[1, 3, 0]] (Some [1]) ''data-aria-hidden'' pageWorld"
  have mk: "''data-aria-hidden'' \<noteq> ''aria-hidden''" by simp
  have len: "length (snd ?r) = 2"
    using hideOthersTimes_effect [OF mk, of "[]" 2 page "[[1, 3, 0]]" "Some [1]" pageWorld] by simp
  have n: "(1::nat) \<le> 2" by simp
  have r: "?r = (fst ?r, snd ?r)" by simp
  have s: "set (snd ?r) \<subseteq> set (snd ?r)" by simp
  show ?thesis
    using aria_hidden_round_trip [OF page_clean n r len s, of "[1, 0]"]
      aria_hidden_round_trip [OF page_clean n r len s, of "[1, 1]"] page_outside
    by (simp add: pageWorld_def)
qed

end
